theory Spec2Isabelle
  imports Complex_Main "HOL-Library.Sublist"
begin

section \<open>The bounded thread-safe queue\<close>

text \<open>
  \<^verbatim>\<open>camera_inference.cpp\<close> connects its three threads with two objects of the class
  \<^verbatim>\<open>BoundedThreadSafeQueue<T>\<close>, which the header \<^verbatim>\<open>tools/BoundedThreadSafeQueue.hpp\<close>
  defines. The class is modelled from sections 3, 4.1 and 7 of the specification of the
  pipeline. The operations keep the names the callers use: \<^verbatim>\<open>enqueue\<close> (put),
  \<^verbatim>\<open>dequeue\<close> (get) and \<^verbatim>\<open>set_finished\<close> (markFinished).

  Every operation runs under the queue's mutex, so it is one atomic step. A call that has
  to wait on a condition variable is the value \<open>Blocks\<close>: the calling thread cannot take
  the step in that state and stays where it is.
\<close>

text \<open>
  Modelled from the spec: the state of a \<^verbatim>\<open>BoundedThreadSafeQueue\<close> (section 3): the
  buffered items in insertion order, the capacity \<open>K\<close>, and the flag \<open>finished\<close>; and
  its constructor, which takes the capacity.
\<close>

record 'a bqueue =
  buf :: "'a list"
  max_size :: nat
  finished :: bool

datatype 'r call = Blocks | Returns 'r

definition new_queue :: "nat \<Rightarrow> 'a bqueue" where
  "new_queue k = \<lparr>buf = [], max_size = k, finished = False\<rparr>"

text \<open>
  Modelled from the spec: \<^verbatim>\<open>BoundedThreadSafeQueue::enqueue\<close>. ``put(item) blocks the
  calling thread while size == K and finished == false. Returns true after the item is
  buffered. If finished becomes true while blocked, returns false and the item is not
  enqueued''; and (section 7) a put on a finished queue returns the not-accepted signal,
  ``it must never silently accept into a logically closed queue''.
\<close>

definition enqueue :: "'a \<Rightarrow> 'a bqueue \<Rightarrow> (bool \<times> 'a bqueue) call" where
  "enqueue x q =
     (if length (buf q) = max_size q \<and> \<not> finished q then Blocks
      else if finished q then Returns (False, q)
      else Returns (True, q\<lparr>buf := buf q @ [x]\<rparr>))"

text \<open>
  Modelled from the spec: \<^verbatim>\<open>BoundedThreadSafeQueue::dequeue\<close>. ``get() blocks while
  size == 0 and finished == false. Returns the oldest buffered item (removing it) if
  size > 0, regardless of finished. Returns closed only when size == 0 and finished ==
  true.'' The C++ caller receives \<^verbatim>\<open>true\<close> and the item through the reference
  parameter (\<open>Some x\<close>), or \<^verbatim>\<open>false\<close> (\<open>None\<close>, closed).
\<close>

definition dequeue :: "'a bqueue \<Rightarrow> ('a option \<times> 'a bqueue) call" where
  "dequeue q =
     (case buf q of
        [] \<Rightarrow> if finished q then Returns (None, q) else Blocks
      | x # xs \<Rightarrow> Returns (Some x, q\<lparr>buf := xs\<rparr>))"

text \<open>
  Modelled from the spec: \<^verbatim>\<open>BoundedThreadSafeQueue::set_finished\<close>. ``markFinished() sets
  finished to true (idempotent) and wakes all threads blocked in put or get. Does not
  discard buffered items.'' Waking the waiters needs no state here: a waiter is a thread
  whose step is \<open>Blocks\<close>, and it is re-evaluated in every later state.
\<close>

definition set_finished :: "'a bqueue \<Rightarrow> 'a bqueue" where
  "set_finished q = q\<lparr>finished := True\<rparr>"

text \<open>
  A history of calls on one queue, in the order in which they take effect, for the
  testable properties of section 8 of the specification.
\<close>

datatype 'a qop = Put 'a | Get | MarkFinished

datatype 'a qres = Accepted | NotAccepted | Item 'a | Closed | Marked

text \<open>
  \<open>qcall\<close> is one call; \<open>qcalls\<close> runs a history from left to right and returns the
  results and the final queue, or \<open>None\<close> when some call of the history would block
  (a single thread cannot continue past it).
\<close>

definition qcall :: "'a qop \<Rightarrow> 'a bqueue \<Rightarrow> ('a qres \<times> 'a bqueue) call" where
  "qcall c q =
     (case c of
        Put x \<Rightarrow>
          (case enqueue x q of
             Blocks \<Rightarrow> Blocks
           | Returns (ok, q') \<Rightarrow> Returns (if ok then Accepted else NotAccepted, q'))
      | Get \<Rightarrow>
          (case dequeue q of
             Blocks \<Rightarrow> Blocks
           | Returns (r, q') \<Rightarrow>
               Returns (case r of None \<Rightarrow> Closed | Some x \<Rightarrow> Item x, q'))
      | MarkFinished \<Rightarrow> Returns (Marked, set_finished q))"

fun qcalls :: "'a qop list \<Rightarrow> 'a bqueue \<Rightarrow> ('a qres list \<times> 'a bqueue) option" where
  "qcalls [] q = Some ([], q)"
| "qcalls (c # cs) q =
     (case qcall c q of
        Blocks \<Rightarrow> None
      | Returns (r, q') \<Rightarrow>
          (case qcalls cs q' of
             None \<Rightarrow> None
           | Some (rs, q'') \<Rightarrow> Some (r # rs, q'')))"

section \<open>The pipeline of \<^verbatim>\<open>camera_inference.cpp\<close>\<close>

text \<open>
  \<^verbatim>\<open>main\<close> starts a producer thread (capture), a consumer thread (inference) and a
  display thread (on macOS the display loop runs on the main thread instead; the loop is
  the same code). The threads share \<^verbatim>\<open>frameQueue\<close>, \<^verbatim>\<open>processedQueue\<close> and the atomic
  \<^verbatim>\<open>stopFlag\<close>. The model is an interleaving of atomic steps: every step holds at most
  one access to a shared object (a load or store of \<^verbatim>\<open>stopFlag\<close> or one queue call),
  together with thread-local work.

  A frame is a value of type \<open>'f\<close>, a detection result a value of type \<open>'d\<close>. The
  external capabilities are inputs of the model:
  \<^item> \<open>cap\<close>: the frames the capture device still has to deliver; \<^verbatim>\<open>cap.read\<close> takes the
    first one and returns \<^verbatim>\<open>false\<close> when there is none. While the threads run only the
    producer uses \<^verbatim>\<open>cap\<close>, so the read is thread-local work;
  \<^item> \<open>detect\<close>: \<^verbatim>\<open>detector.detect\<close>, which returns detections (\<open>Inr\<close>) or throws
    (\<open>Inl\<close>);
  \<^item> \<open>keys\<close>: what \<^verbatim>\<open>cv::waitKey(1) == 'q'\<close> evaluates to after each displayed frame
    (\<open>False\<close> once the list is used up).

  The other calls into OpenCV and the detector (\<^verbatim>\<open>cap.read\<close>, \<^verbatim>\<open>drawBoundingBoxMask\<close>,
  \<^verbatim>\<open>imshow\<close>, \<^verbatim>\<open>waitKey\<close>) are taken to return. The pixel data of a \<^verbatim>\<open>cv::Mat\<close> is not
  modelled: a frame is an immutable value.
\<close>

datatype tid = Producer | Consumer | Display

text \<open>The program points of the three loops, with the locals that are live there.\<close>

datatype 'f ppc =
    P_Head            \<comment> \<open>\<^verbatim>\<open>while (!stopFlag.load() && cap.read(frame))\<close>\<close>
  | P_Enq 'f          \<comment> \<open>\<^verbatim>\<open>if (!frameQueue.enqueue(frame)) break;\<close>\<close>
  | P_Finish          \<comment> \<open>\<^verbatim>\<open>frameQueue.set_finished();\<close>\<close>
  | P_Done

datatype ('f, 'd) cpc =
    C_Head            \<comment> \<open>\<^verbatim>\<open>while (!stopFlag.load() && ...\<close>\<close>
  | C_Deq             \<comment> \<open>\<^verbatim>\<open>... frameQueue.dequeue(frame))\<close>\<close>
  | C_Detect 'f       \<comment> \<open>\<^verbatim>\<open>detections = detector.detect(frame);\<close>\<close>
  | C_Enq 'f 'd       \<comment> \<open>\<^verbatim>\<open>if (!processedQueue.enqueue(make_pair(frame, detections))) break;\<close>\<close>
  | C_Finish          \<comment> \<open>\<^verbatim>\<open>processedQueue.set_finished();\<close>\<close>
  | C_Done

datatype ('f, 'd) dpc =
    D_Head            \<comment> \<open>\<^verbatim>\<open>while (!stopFlag.load() && ...\<close>\<close>
  | D_Deq             \<comment> \<open>\<^verbatim>\<open>... processedQueue.dequeue(item))\<close>\<close>
  | D_Show 'f 'd      \<comment> \<open>\<^verbatim>\<open>drawBoundingBoxMask; imshow; if (waitKey(1) == 'q')\<close>\<close>
  | D_Quit1           \<comment> \<open>\<^verbatim>\<open>stopFlag.store(true);\<close>\<close>
  | D_Quit2           \<comment> \<open>\<^verbatim>\<open>frameQueue.set_finished();\<close>\<close>
  | D_Quit3           \<comment> \<open>\<^verbatim>\<open>processedQueue.set_finished(); break;\<close>\<close>
  | D_Done

text \<open>
  The history of a run: every queue call that returned, with its result, and every
  frame handed to \<^verbatim>\<open>cv::imshow\<close>. It is written by the steps and read by none of them.
  The program itself keeps no record of this kind: it writes to \<^verbatim>\<open>std::cerr\<close> once, when
  the camera cannot be opened, and nowhere else.
\<close>

datatype ('f, 'd) event =
    EnqA 'f bool                  \<comment> \<open>\<^verbatim>\<open>frameQueue.enqueue(frame)\<close> returned the flag\<close>
  | DeqA "'f option"              \<comment> \<open>\<^verbatim>\<open>frameQueue.dequeue\<close>: a frame, or \<^verbatim>\<open>false\<close>\<close>
  | FinA tid                      \<comment> \<open>\<^verbatim>\<open>frameQueue.set_finished()\<close> called by the thread\<close>
  | EnqB 'f 'd bool
  | DeqB "('f \<times> 'd) option"
  | FinB tid
  | Imshow 'f 'd                  \<comment> \<open>the frame was drawn and displayed\<close>

record ('f, 'd) pipeline =
  cap :: "'f list"
  keys :: "bool list"
  frameQueue :: "'f bqueue"
  processedQueue :: "('f \<times> 'd) bqueue"
  stopFlag :: bool
  producer :: "'f ppc"
  consumer :: "('f, 'd) cpc"
  displayThread :: "('f, 'd) dpc"
  history :: "('f, 'd) event list"
  terminate_called :: bool

text \<open>
  \<^verbatim>\<open>const size_t max_queue_size = 2;\<close> and the two queue constructions, \<^verbatim>\<open>stopFlag(false)\<close>,
  and the three threads at the head of their loops.
\<close>

definition max_queue_size :: nat where
  "max_queue_size = 2"

definition init :: "'f list \<Rightarrow> bool list \<Rightarrow> ('f, 'd) pipeline" where
  "init frames ks =
     \<lparr>cap = frames, keys = ks,
      frameQueue = new_queue max_queue_size,
      processedQueue = new_queue max_queue_size,
      stopFlag = False,
      producer = P_Head, consumer = C_Head, displayThread = D_Head,
      history = [], terminate_called = False\<rparr>"

text \<open>
  The producer thread (lines 172-180). A step is \<open>None\<close> when the thread cannot move:
  it waits inside a queue call, or it has returned.
\<close>

definition producer_step :: "('f, 'd) pipeline \<Rightarrow> ('f, 'd) pipeline option" where
  "producer_step s =
     (case producer s of
        P_Head \<Rightarrow>
          (if stopFlag s then Some (s\<lparr>producer := P_Finish\<rparr>)
           else (case cap s of
                   [] \<Rightarrow> Some (s\<lparr>producer := P_Finish\<rparr>)
                 | f # fs \<Rightarrow> Some (s\<lparr>cap := fs, producer := P_Enq f\<rparr>)))
      | P_Enq f \<Rightarrow>
          (case enqueue f (frameQueue s) of
             Blocks \<Rightarrow> None
           | Returns (ok, q) \<Rightarrow>
               Some (s\<lparr>frameQueue := q,
                       producer := (if ok then P_Head else P_Finish),
                       history := history s @ [EnqA f ok]\<rparr>))
      | P_Finish \<Rightarrow>
          Some (s\<lparr>frameQueue := set_finished (frameQueue s),
                  producer := P_Done,
                  history := history s @ [FinA Producer]\<rparr>)
      | P_Done \<Rightarrow> None)"

text \<open>
  The consumer thread (lines 183-195). \<^verbatim>\<open>detector.detect(frame)\<close> is called with no
  \<^verbatim>\<open>try\<close> block around it, in the loop or anywhere in the thread function: an exception
  leaves the function of a \<^verbatim>\<open>std::thread\<close>, which calls \<^verbatim>\<open>std::terminate\<close>, and the
  process ends.
\<close>

definition consumer_step ::
  "('f \<Rightarrow> 'e + 'd) \<Rightarrow> ('f, 'd) pipeline \<Rightarrow> ('f, 'd) pipeline option" where
  "consumer_step detect s =
     (case consumer s of
        C_Head \<Rightarrow>
          (if stopFlag s then Some (s\<lparr>consumer := C_Finish\<rparr>)
           else Some (s\<lparr>consumer := C_Deq\<rparr>))
      | C_Deq \<Rightarrow>
          (case dequeue (frameQueue s) of
             Blocks \<Rightarrow> None
           | Returns (r, q) \<Rightarrow>
               Some (s\<lparr>frameQueue := q,
                       consumer := (case r of None \<Rightarrow> C_Finish | Some f \<Rightarrow> C_Detect f),
                       history := history s @ [DeqA r]\<rparr>))
      | C_Detect f \<Rightarrow>
          (case detect f of
             Inl e \<Rightarrow> Some (s\<lparr>terminate_called := True\<rparr>)
           | Inr d \<Rightarrow> Some (s\<lparr>consumer := C_Enq f d\<rparr>))
      | C_Enq f d \<Rightarrow>
          (case enqueue (f, d) (processedQueue s) of
             Blocks \<Rightarrow> None
           | Returns (ok, q) \<Rightarrow>
               Some (s\<lparr>processedQueue := q,
                       consumer := (if ok then C_Head else C_Finish),
                       history := history s @ [EnqB f d ok]\<rparr>))
      | C_Finish \<Rightarrow>
          Some (s\<lparr>processedQueue := set_finished (processedQueue s),
                  consumer := C_Done,
                  history := history s @ [FinB Consumer]\<rparr>)
      | C_Done \<Rightarrow> None)"

text \<open>
  The display loop (lines 217-234, and lines 201-214 on macOS). \<^verbatim>\<open>drawBoundingBoxMask\<close>
  and \<^verbatim>\<open>imshow\<close> touch only the dequeued item; the key is polled right after.
\<close>

definition display_step :: "('f, 'd) pipeline \<Rightarrow> ('f, 'd) pipeline option" where
  "display_step s =
     (case displayThread s of
        D_Head \<Rightarrow>
          (if stopFlag s then Some (s\<lparr>displayThread := D_Done\<rparr>)
           else Some (s\<lparr>displayThread := D_Deq\<rparr>))
      | D_Deq \<Rightarrow>
          (case dequeue (processedQueue s) of
             Blocks \<Rightarrow> None
           | Returns (r, q) \<Rightarrow>
               Some (s\<lparr>processedQueue := q,
                       displayThread := (case r of None \<Rightarrow> D_Done | Some (f, d) \<Rightarrow> D_Show f d),
                       history := history s @ [DeqB r]\<rparr>))
      | D_Show f d \<Rightarrow>
          (case keys s of
             [] \<Rightarrow>
               Some (s\<lparr>displayThread := D_Head, history := history s @ [Imshow f d]\<rparr>)
           | k # ks \<Rightarrow>
               (if k then
                  Some (s\<lparr>keys := ks, displayThread := D_Quit1,
                          history := history s @ [Imshow f d]\<rparr>)
                else
                  Some (s\<lparr>keys := ks, displayThread := D_Head,
                          history := history s @ [Imshow f d]\<rparr>)))
      | D_Quit1 \<Rightarrow> Some (s\<lparr>stopFlag := True, displayThread := D_Quit2\<rparr>)
      | D_Quit2 \<Rightarrow>
          Some (s\<lparr>frameQueue := set_finished (frameQueue s),
                  displayThread := D_Quit3,
                  history := history s @ [FinA Display]\<rparr>)
      | D_Quit3 \<Rightarrow>
          Some (s\<lparr>processedQueue := set_finished (processedQueue s),
                  displayThread := D_Done,
                  history := history s @ [FinB Display]\<rparr>)
      | D_Done \<Rightarrow> None)"

text \<open>
  One step of the thread the scheduler picks. After \<^verbatim>\<open>std::terminate\<close> there is no
  process left to take a step.
\<close>

definition step ::
  "('f \<Rightarrow> 'e + 'd) \<Rightarrow> tid \<Rightarrow> ('f, 'd) pipeline \<Rightarrow> ('f, 'd) pipeline option" where
  "step detect t s =
     (if terminate_called s then None
      else (case t of
              Producer \<Rightarrow> producer_step s
            | Consumer \<Rightarrow> consumer_step detect s
            | Display \<Rightarrow> display_step s))"

text \<open>
  A run under a schedule: the list of the threads the scheduler picks, in order. Picking
  a thread that cannot move leaves the state as it is.
\<close>

fun run ::
  "('f \<Rightarrow> 'e + 'd) \<Rightarrow> tid list \<Rightarrow> ('f, 'd) pipeline \<Rightarrow> ('f, 'd) pipeline" where
  "run detect [] s = s"
| "run detect (t # ts) s =
     (case step detect t s of
        None \<Rightarrow> run detect ts s
      | Some s' \<Rightarrow> run detect ts s')"

text \<open>All three threads have returned: the two (three) \<^verbatim>\<open>join\<close> calls of \<^verbatim>\<open>main\<close> return.\<close>

definition all_joined :: "('f, 'd) pipeline \<Rightarrow> bool" where
  "all_joined s \<longleftrightarrow>
     producer s = P_Done \<and> consumer s = C_Done \<and> displayThread s = D_Done"

text \<open>Projections of the history.\<close>

definition displayed :: "('f, 'd) event list \<Rightarrow> ('f \<times> 'd) list" where
  "displayed h = List.map_filter (\<lambda>e. case e of Imshow f d \<Rightarrow> Some (f, d) | _ \<Rightarrow> None) h"

definition accepted_A :: "('f, 'd) event list \<Rightarrow> 'f list" where
  "accepted_A h = List.map_filter (\<lambda>e. case e of EnqA f True \<Rightarrow> Some f | _ \<Rightarrow> None) h"

definition received_A :: "('f, 'd) event list \<Rightarrow> 'f list" where
  "received_A h = List.map_filter (\<lambda>e. case e of DeqA (Some f) \<Rightarrow> Some f | _ \<Rightarrow> None) h"

definition accepted_B :: "('f, 'd) event list \<Rightarrow> ('f \<times> 'd) list" where
  "accepted_B h =
     List.map_filter (\<lambda>e. case e of EnqB f d True \<Rightarrow> Some (f, d) | _ \<Rightarrow> None) h"

definition received_B :: "('f, 'd) event list \<Rightarrow> ('f \<times> 'd) list" where
  "received_B h = List.map_filter (\<lambda>e. case e of DeqB (Some x) \<Rightarrow> Some x | _ \<Rightarrow> None) h"

text \<open>
  How a process ends: \<^verbatim>\<open>main\<close> returns an exit code; \<^verbatim>\<open>std::terminate\<close> ends it; it has
  not returned from its \<^verbatim>\<open>join\<close> calls when the schedule ends; or it executes an
  operation that the C++ standard leaves undefined (the benchmark tool, below).
\<close>

datatype undefined_op = Division_by_zero | Deref_end_iterator | String_from_null

datatype outcome = Exit int | Terminate_called | Still_running | Undefined undefined_op

text \<open>
  \<^verbatim>\<open>main\<close> of \<^verbatim>\<open>camera_inference.cpp\<close> from \<^verbatim>\<open>cap.open\<close> on (lines 151-246); the
  construction of the detector before it is not modelled. \<open>isOpened\<close> is what
  \<^verbatim>\<open>cap.isOpened()\<close> returns. The result holds how the process ends, what was written to
  \<^verbatim>\<open>std::cerr\<close>, and the state of the threads: \<open>None\<close> when \<^verbatim>\<open>main\<close> returned before
  it constructed the queues and the \<^verbatim>\<open>std::thread\<close> objects.
\<close>

definition camera_inference_main ::
  "bool \<Rightarrow> ('f \<Rightarrow> 'e + 'd) \<Rightarrow> tid list \<Rightarrow> 'f list \<Rightarrow> bool list \<Rightarrow>
   outcome \<times> string list \<times> ('f, 'd) pipeline option" where
  "camera_inference_main isOpened detect sched frames ks =
     (if \<not> isOpened then (Exit (- 1), [''Error: Could not open the camera!''], None)
      else
        (let s = run detect sched (init frames ks)
         in (if terminate_called s then Terminate_called
             else if all_joined s then Exit 0
             else Still_running, [], Some s)))"

subsection \<open>Predicates on queues and pipeline states\<close>

text \<open>The results of the \<open>Get\<close> calls of a history, and how many there are.\<close>

definition get_results :: "'a qres list \<Rightarrow> 'a qres list" where
  "get_results rs =
     filter (\<lambda>r. case r of Item x \<Rightarrow> True | Closed \<Rightarrow> True | _ \<Rightarrow> False) rs"

definition count_gets :: "'a qop list \<Rightarrow> nat" where
  "count_gets cs = length (filter (\<lambda>c. case c of Get \<Rightarrow> True | _ \<Rightarrow> False) cs)"

definition within_capacity :: "'a bqueue \<Rightarrow> bool" where
  "within_capacity q \<longleftrightarrow> length (buf q) \<le> max_size q"

definition queues_bounded :: "('f, 'd) pipeline \<Rightarrow> bool" where
  "queues_bounded s \<longleftrightarrow>
     max_size (frameQueue s) = max_queue_size \<and> within_capacity (frameQueue s) \<and>
     max_size (processedQueue s) = max_queue_size \<and> within_capacity (processedQueue s)"

subsection \<open>Invariants of the shutdown protocol\<close>

text \<open>
  Facts that hold in every state a run can reach, whatever the schedule: a thread that has
  returned has marked its output queue finished; \<^verbatim>\<open>stopFlag\<close> is set only inside the quit
  branch of the display loop; \<^verbatim>\<open>processedQueue\<close> is finished only by the consumer on its
  way out or by the quit branch; a consumer that left its loop did so because of the flag
  or because \<^verbatim>\<open>frameQueue\<close> was finished.
\<close>

definition shutdown_consistent :: "('f, 'd) pipeline \<Rightarrow> bool" where
  "shutdown_consistent s \<longleftrightarrow>
     (producer s = P_Done \<longrightarrow> finished (frameQueue s)) \<and>
     (consumer s = C_Done \<longrightarrow> finished (processedQueue s)) \<and>
     (displayThread s = D_Done \<longrightarrow> finished (processedQueue s)) \<and>
     (stopFlag s \<longrightarrow> displayThread s = D_Quit2 \<or> displayThread s = D_Quit3 \<or>
        displayThread s = D_Done) \<and>
     (displayThread s = D_Quit2 \<longrightarrow> stopFlag s) \<and>
     (displayThread s = D_Quit3 \<longrightarrow> stopFlag s \<and> finished (frameQueue s)) \<and>
     (displayThread s = D_Done \<and> stopFlag s \<longrightarrow> finished (frameQueue s)) \<and>
     (finished (processedQueue s) \<longrightarrow>
        consumer s = C_Done \<or> (stopFlag s \<and> displayThread s = D_Done)) \<and>
     (consumer s = C_Finish \<or> consumer s = C_Done \<longrightarrow>
        stopFlag s \<or> finished (frameQueue s))"

text \<open>
  The producer thread calls \<^verbatim>\<open>frameQueue.set_finished()\<close> once, as its last action, and it
  leaves its loop for one of three reasons: the flag, a failed \<^verbatim>\<open>cap.read\<close>, or an
  \<^verbatim>\<open>enqueue\<close> that returned \<^verbatim>\<open>false\<close>.
\<close>

definition producer_exit_accounted :: "('f, 'd) pipeline \<Rightarrow> bool" where
  "producer_exit_accounted s \<longleftrightarrow>
     count_list (history s) (FinA Producer) = (if producer s = P_Done then 1 else 0) \<and>
     (producer s = P_Finish \<or> producer s = P_Done \<longrightarrow>
        stopFlag s \<or> cap s = [] \<or> (\<exists>f. EnqA f False \<in> set (history s)))"

text \<open>
  The quit branch of the display loop, from the frame on which \<^verbatim>\<open>waitKey\<close> returns
  \<^verbatim>\<open>'q'\<close> to the end of the loop, and the number of steps of the display thread that
  are left in it.
\<close>

definition quit_in_progress :: "('f, 'd) pipeline \<Rightarrow> bool" where
  "quit_in_progress s \<longleftrightarrow>
     (case displayThread s of
        D_Show f d \<Rightarrow> (case keys s of k # ks \<Rightarrow> k | [] \<Rightarrow> False)
      | D_Quit1 \<Rightarrow> True
      | D_Quit2 \<Rightarrow> stopFlag s
      | D_Quit3 \<Rightarrow>
          stopFlag s \<and> finished (frameQueue s) \<and> FinA Display \<in> set (history s)
      | D_Done \<Rightarrow>
          stopFlag s \<and> finished (frameQueue s) \<and> finished (processedQueue s) \<and>
          FinA Display \<in> set (history s) \<and> FinB Display \<in> set (history s)
      | _ \<Rightarrow> False)"

definition quit_steps_left :: "('f, 'd) pipeline \<Rightarrow> nat" where
  "quit_steps_left s =
     (case displayThread s of
        D_Show f d \<Rightarrow> 4 | D_Quit1 \<Rightarrow> 3 | D_Quit2 \<Rightarrow> 2 | D_Quit3 \<Rightarrow> 1 | _ \<Rightarrow> 0)"

subsection \<open>Progress\<close>

text \<open>
  \<open>upstream_A\<close> counts the frames that can still reach the consumer, \<open>upstream_B\<close>
  those that can still reach the display loop. \<open>potential\<close> bounds the number of steps
  the three threads can still take; every step lowers it.
\<close>

definition upstream_A :: "('f, 'd) pipeline \<Rightarrow> nat" where
  "upstream_A s =
     length (cap s) + (case producer s of P_Enq f \<Rightarrow> 1 | _ \<Rightarrow> 0) +
     length (buf (frameQueue s))"

definition upstream_B :: "('f, 'd) pipeline \<Rightarrow> nat" where
  "upstream_B s =
     upstream_A s + (case consumer s of C_Detect f \<Rightarrow> 1 | C_Enq f d \<Rightarrow> 1 | _ \<Rightarrow> 0) +
     length (buf (processedQueue s))"

definition potential :: "('f, 'd) pipeline \<Rightarrow> nat" where
  "potential s =
     (case producer s of
        P_Head \<Rightarrow> 2 * length (cap s) + 2
      | P_Enq f \<Rightarrow> 2 * length (cap s) + 3
      | P_Finish \<Rightarrow> 1
      | P_Done \<Rightarrow> 0) +
     (case consumer s of
        C_Head \<Rightarrow> 4 * upstream_A s + 3
      | C_Deq \<Rightarrow> 4 * upstream_A s + 2
      | C_Detect f \<Rightarrow> 4 * upstream_A s + 5
      | C_Enq f d \<Rightarrow> 4 * upstream_A s + 4
      | C_Finish \<Rightarrow> 1
      | C_Done \<Rightarrow> 0) +
     (case displayThread s of
        D_Head \<Rightarrow> 3 * upstream_B s + 3
      | D_Deq \<Rightarrow> 3 * upstream_B s + 2
      | D_Show f d \<Rightarrow> 3 * upstream_B s + 4
      | D_Quit1 \<Rightarrow> 3
      | D_Quit2 \<Rightarrow> 2
      | D_Quit3 \<Rightarrow> 1
      | D_Done \<Rightarrow> 0) +
     (if terminate_called s then 0 else 1)"

text \<open>
  A fair schedule: \<open>n\<close> rounds in which each thread is picked once. A state is
  \<open>final\<close> when the process has ended: \<^verbatim>\<open>std::terminate\<close> was called, or the three
  threads have returned.
\<close>

definition round_robin :: "nat \<Rightarrow> tid list" where
  "round_robin n = concat (replicate n [Producer, Consumer, Display])"

definition final :: "('f, 'd) pipeline \<Rightarrow> bool" where
  "final s \<longleftrightarrow> terminate_called s \<or> all_joined s"

subsection \<open>The flow of frames\<close>

text \<open>
  The item a thread holds in a local variable between two queue calls.
\<close>

definition hand_P :: "('f, 'd) pipeline \<Rightarrow> 'f list" where
  "hand_P s = (case producer s of P_Enq f \<Rightarrow> [f] | _ \<Rightarrow> [])"

definition hand_C :: "('f, 'd) pipeline \<Rightarrow> 'f list" where
  "hand_C s = (case consumer s of C_Detect f \<Rightarrow> [f] | C_Enq f d \<Rightarrow> [f] | _ \<Rightarrow> [])"

definition hand_D :: "('f, 'd) pipeline \<Rightarrow> ('f \<times> 'd) list" where
  "hand_D s = (case displayThread s of D_Show f d \<Rightarrow> [(f, d)] | _ \<Rightarrow> [])"

text \<open>
  What the history says about the two queues in every reachable state: what a queue
  accepted is what its consumer received followed by what is still buffered; the display
  loop shows what it received; the consumer forwards what it received, in order, with the
  detections \<open>detect\<close> returned; the producer offers the frames of the camera in order.
  \<open>frames\<close> are the frames the camera delivers during the run.
\<close>

definition fifo_consistent ::
  "'f list \<Rightarrow> ('f \<Rightarrow> 'e + 'd) \<Rightarrow> ('f, 'd) pipeline \<Rightarrow> bool" where
  "fifo_consistent frames detect s \<longleftrightarrow>
     accepted_A (history s) = received_A (history s) @ buf (frameQueue s) \<and>
     accepted_B (history s) = received_B (history s) @ buf (processedQueue s) \<and>
     received_B (history s) = displayed (history s) @ hand_D s \<and>
     (if consumer s = C_Finish \<or> consumer s = C_Done
      then prefix (map fst (accepted_B (history s))) (received_A (history s))
      else received_A (history s) = map fst (accepted_B (history s)) @ hand_C s) \<and>
     (if producer s = P_Finish \<or> producer s = P_Done
      then prefix (accepted_A (history s)) frames
      else frames = accepted_A (history s) @ hand_P s @ cap s) \<and>
     (\<forall>f d. consumer s = C_Enq f d \<longrightarrow> detect f = Inr d) \<and>
     (\<forall>x \<in> set (accepted_B (history s)). detect (fst x) = Inr (snd x))"

text \<open>
  What holds as long as there is no shutdown, that is as long as \<^verbatim>\<open>stopFlag\<close> is false
  and \<^verbatim>\<open>std::terminate\<close> has not been called: a queue is finished only by its own
  producer, at the end of the stream, and a thread that has left its loop has passed on
  everything it received.
\<close>

definition undisturbed :: "'f list \<Rightarrow> ('f, 'd) pipeline \<Rightarrow> bool" where
  "undisturbed frames s \<longleftrightarrow>
     (\<not> stopFlag s \<and> \<not> terminate_called s \<longrightarrow>
        (finished (frameQueue s) \<longrightarrow> producer s = P_Done) \<and>
        (producer s = P_Finish \<or> producer s = P_Done \<longrightarrow>
           frames = accepted_A (history s)) \<and>
        (finished (processedQueue s) \<longrightarrow> consumer s = C_Done) \<and>
        (consumer s = C_Finish \<or> consumer s = C_Done \<longrightarrow>
           buf (frameQueue s) = [] \<and> finished (frameQueue s) \<and>
           received_A (history s) = map fst (accepted_B (history s))) \<and>
        (displayThread s = D_Done \<longrightarrow>
           buf (processedQueue s) = [] \<and> finished (processedQueue s)))"

text \<open>
  A process that was terminated stopped in the call of \<^verbatim>\<open>detect\<close>; and a run in which
  \<^verbatim>\<open>'q'\<close> is never pressed: no key of \<open>keys\<close> is \<^verbatim>\<open>'q'\<close>, the flag is false and the
  display loop is outside its quit branch.
\<close>

definition terminated_in_detect :: "('f, 'd) pipeline \<Rightarrow> bool" where
  "terminated_in_detect s \<longleftrightarrow> (terminate_called s \<longrightarrow> (\<exists>f. consumer s = C_Detect f))"

definition never_quit :: "('f, 'd) pipeline \<Rightarrow> bool" where
  "never_quit s \<longleftrightarrow>
     True \<notin> set (keys s) \<and> \<not> stopFlag s \<and>
     displayThread s \<noteq> D_Quit1 \<and> displayThread s \<noteq> D_Quit2 \<and>
     displayThread s \<noteq> D_Quit3"

text \<open>
  The items a history of calls on one queue offers (\<open>Put\<close>) and the items its \<open>Get\<close>
  calls return.
\<close>

definition put_items :: "'a qop list \<Rightarrow> 'a list" where
  "put_items cs = List.map_filter (\<lambda>c. case c of Put x \<Rightarrow> Some x | _ \<Rightarrow> None) cs"

definition received_items :: "'a qres list \<Rightarrow> 'a list" where
  "received_items rs = List.map_filter (\<lambda>r. case r of Item x \<Rightarrow> Some x | _ \<Rightarrow> None) rs"

subsection \<open>Example inputs\<close>

text \<open>
  A detector that always succeeds, one that throws on frame \<open>3\<close>, and a schedule that
  lets the producer and the consumer run until both queues are full and both threads wait
  inside \<^verbatim>\<open>enqueue\<close>, and then lets the display loop take its first item.
\<close>

definition detect_all :: "nat \<Rightarrow> unit + nat" where
  "detect_all f = Inr (10 * f)"

definition detect_fails_on_3 :: "nat \<Rightarrow> unit + nat" where
  "detect_fails_on_3 f = (if f = 3 then Inl () else Inr (10 * f))"

definition until_quit_key :: "tid list" where
  "until_quit_key =
     round_robin 2 @ concat (replicate 13 [Producer, Consumer]) @ [Display]"

section \<open>The benchmark tool \<^verbatim>\<open>yolo_performance_analyzer.cpp\<close>\<close>

text \<open>
  The values of type \<^verbatim>\<open>double\<close> are modelled as reals: the properties below are about
  which operations are executed on which operands, not about rounding. An operation the
  C++ standard leaves undefined is recorded in the result (\<open>Inl\<close>) instead of a value:
  a division whose divisor is zero, the dereference of an end iterator, and the
  construction of a \<^verbatim>\<open>std::string\<close> from a null pointer.
\<close>

subsection \<open>Configuration and exceptions\<close>

record BenchmarkConfig =
  model_type :: string
  task_type :: string
  model_path :: string
  labels_path :: string
  use_gpu :: bool
  thread_count :: int
  quantized :: bool
  precision :: string

datatype stoi_error = Invalid_argument | Out_of_range

text \<open>
  The exceptions of the tool, all thrown as \<^verbatim>\<open>std::runtime_error\<close> with a message built
  from the arguments kept here, and the two exceptions of \<^verbatim>\<open>std::stoi\<close>.
\<close>

datatype exn =
    Invalid_arguments
  | Unsupported_model string string
  | Could_not_read_image string
  | Could_not_open_video string
  | Could_not_open_camera int
  | Stoi_failed stoi_error

text \<open>
  \<^verbatim>\<open>DetectorFactory::createDetector\<close> (lines 153-182): the supported combinations of model
  and task. The detector object itself is not modelled.
\<close>

definition createDetector :: "BenchmarkConfig \<Rightarrow> exn + unit" where
  "createDetector config =
     (if model_type config = ''yolo11'' \<and> task_type config = ''detection'' then Inr ()
      else if model_type config = ''yolo8'' \<and> task_type config = ''detection'' then Inr ()
      else if model_type config = ''yolo11_quantized'' \<and> task_type config = ''detection''
        then Inr ()
      else if model_type config = ''yolo8_quantized'' \<and> task_type config = ''detection''
        then Inr ()
      else Inl (Unsupported_model (model_type config) (task_type config)))"

subsection \<open>The video and camera benchmarks\<close>

text \<open>
  One iteration of a benchmark loop measures five numbers: the CPU usage, the GPU
  utilisation and memory, the time of \<^verbatim>\<open>detect\<close> and the \<^verbatim>\<open>TickMeter\<close> latency. They
  come from the clock and the system monitors, so they are inputs here, one \<open>sample\<close>
  for each frame that was read. A read attempt fails (\<^verbatim>\<open>cap.read\<close> returns \<^verbatim>\<open>false\<close>),
  yields an empty frame, or yields a frame.
\<close>

record sample =
  cpu_usage :: real
  gpu_util :: real
  gpu_memory :: real
  frame_time :: real
  latency :: real

datatype read_result = Read_failed | Empty_frame | Frame sample

text \<open>
  The five vectors the loops fill and the local counter \<^verbatim>\<open>frame_count\<close> (here
  \<open>frames_counted\<close>; the name \<open>frame_count\<close> is the field of the result).
\<close>

record vectors =
  frame_times :: "real list"
  latency_times :: "real list"
  cpu_usage_samples :: "real list"
  gpu_usage_samples :: "real list"
  gpu_memory_samples :: "real list"
  frames_counted :: int

definition no_samples :: vectors where
  "no_samples =
     \<lparr>frame_times = [], latency_times = [], cpu_usage_samples = [],
      gpu_usage_samples = [], gpu_memory_samples = [], frames_counted = 0\<rparr>"

definition record_sample :: "sample \<Rightarrow> vectors \<Rightarrow> vectors" where
  "record_sample m v =
     v\<lparr>cpu_usage_samples := cpu_usage_samples v @ [cpu_usage m],
       gpu_usage_samples := gpu_usage_samples v @ [gpu_util m],
       gpu_memory_samples := gpu_memory_samples v @ [gpu_memory m],
       frame_times := frame_times v @ [frame_time m],
       latency_times := latency_times v @ [latency m],
       frames_counted := frames_counted v + 1\<rparr>"

text \<open>
  \<^verbatim>\<open>while (cap.read(frame) && !frame.empty())\<close> of \<^verbatim>\<open>benchmark_video_comprehensive\<close>
  (lines 325-351): the loop ends at the first failed read or empty frame. The list holds
  the results of the successive reads; after its end the read fails.
\<close>

fun video_loop :: "read_result list \<Rightarrow> vectors \<Rightarrow> vectors" where
  "video_loop [] v = v"
| "video_loop (Frame m # rs) v = video_loop rs (record_sample m v)"
| "video_loop (Read_failed # rs) v = v"
| "video_loop (Empty_frame # rs) v = v"

text \<open>
  \<^verbatim>\<open>while (now() < end_target)\<close> of \<^verbatim>\<open>benchmark_camera_comprehensive\<close> (lines
  423-454): a failed read or an empty frame sleeps for a millisecond and continues. The
  list holds the results of the reads made before the deadline.
\<close>

fun camera_loop :: "read_result list \<Rightarrow> vectors \<Rightarrow> vectors" where
  "camera_loop [] v = v"
| "camera_loop (Frame m # rs) v = camera_loop rs (record_sample m v)"
| "camera_loop (Read_failed # rs) v = camera_loop rs v"
| "camera_loop (Empty_frame # rs) v = camera_loop rs v"

text \<open>
  The two lambdas of the statistics block (lines 362-369 and 465-472).
  \<^verbatim>\<open>std::accumulate(begin, end, 0.0) / values.size()\<close> divides by zero when the vector is
  empty; \<^verbatim>\<open>std::minmax_element\<close> returns the pair \<^verbatim>\<open>(end, end)\<close> on an empty range and
  both iterators are then dereferenced.
\<close>

definition calc_avg :: "real list \<Rightarrow> undefined_op + real" where
  "calc_avg values =
     (if length values = 0 then Inl Division_by_zero
      else Inr (foldl (+) 0 values / real (length values)))"

definition calc_min_max :: "real list \<Rightarrow> undefined_op + real \<times> real" where
  "calc_min_max values =
     (case values of
        [] \<Rightarrow> Inl Deref_end_iterator
      | v # vs \<Rightarrow> Inr (fold min vs v, fold max vs v))"

text \<open>
  The fields of \<^verbatim>\<open>PerformanceMetrics\<close> that the statistics block writes, and the block
  itself (lines 371-384 and 474-487, the same statements in both functions).
  \<open>total_time\<close> is the measured duration of the loop in milliseconds.
\<close>

record PerformanceMetrics =
  frame_count :: int
  total_avg_ms :: "undefined_op + real"
  fps :: "undefined_op + real"
  latency_avg_ms :: "undefined_op + real"
  latency_min_ms :: "undefined_op + real"
  latency_max_ms :: "undefined_op + real"
  cpu_usage_percent :: "undefined_op + real"
  gpu_usage_percent :: "undefined_op + real"
  gpu_memory_used_mb :: "undefined_op + real"

definition statistics :: "vectors \<Rightarrow> real \<Rightarrow> PerformanceMetrics" where
  "statistics v total_time =
     (let latency_minmax = calc_min_max (latency_times v)
      in \<lparr>frame_count = frames_counted v,
          total_avg_ms = calc_avg (frame_times v),
          fps = (if total_time = 0 then Inl Division_by_zero
                 else Inr (real_of_int (frames_counted v) * 1000 / total_time)),
          latency_avg_ms = calc_avg (latency_times v),
          latency_min_ms = map_sum id fst latency_minmax,
          latency_max_ms = map_sum id snd latency_minmax,
          cpu_usage_percent = calc_avg (cpu_usage_samples v),
          gpu_usage_percent = calc_avg (gpu_usage_samples v),
          gpu_memory_used_mb = calc_avg (gpu_memory_samples v)\<rparr>)"

text \<open>
  The two benchmark functions: the detector is created, the capture is opened (an
  exception when it is not), the loop runs and the statistics are computed. No check of
  the number of processed frames stands between the loop and the statistics.
\<close>

definition benchmark_video_comprehensive ::
  "BenchmarkConfig \<Rightarrow> string \<Rightarrow> bool \<Rightarrow> read_result list \<Rightarrow> real \<Rightarrow>
   exn + PerformanceMetrics" where
  "benchmark_video_comprehensive config video_path isOpened reads total_time =
     (case createDetector config of
        Inl e \<Rightarrow> Inl e
      | Inr detector \<Rightarrow>
          if \<not> isOpened then Inl (Could_not_open_video video_path)
          else Inr (statistics (video_loop reads no_samples) total_time))"

definition benchmark_camera_comprehensive ::
  "BenchmarkConfig \<Rightarrow> int \<Rightarrow> bool \<Rightarrow> read_result list \<Rightarrow> real \<Rightarrow>
   exn + PerformanceMetrics" where
  "benchmark_camera_comprehensive config camera_id isOpened reads total_time =
     (case createDetector config of
        Inl e \<Rightarrow> Inl e
      | Inr detector \<Rightarrow>
          if \<not> isOpened then Inl (Could_not_open_camera camera_id)
          else Inr (statistics (camera_loop reads no_samples) total_time))"

text \<open>
  A read that yields a frame the loop processes, and the result of the statistics block
  on empty vectors.
\<close>

definition is_frame :: "read_result \<Rightarrow> bool" where
  "is_frame r = (case r of Frame m \<Rightarrow> True | _ \<Rightarrow> False)"

definition undefined_statistics :: "PerformanceMetrics \<Rightarrow> bool" where
  "undefined_statistics m \<longleftrightarrow>
     frame_count m = 0 \<and>
     total_avg_ms m = Inl Division_by_zero \<and>
     latency_avg_ms m = Inl Division_by_zero \<and>
     latency_min_ms m = Inl Deref_end_iterator \<and>
     latency_max_ms m = Inl Deref_end_iterator \<and>
     cpu_usage_percent m = Inl Division_by_zero \<and>
     gpu_usage_percent m = Inl Division_by_zero \<and>
     gpu_memory_used_mb m = Inl Division_by_zero"

subsection \<open>Command line\<close>

text \<open>
  \<open>argv\<close> is the list of the \<^verbatim>\<open>argc\<close> argument strings. \<^verbatim>\<open>argv[argc]\<close> is the null
  pointer the C++ standard guarantees: \<open>argv_at\<close> returns \<open>None\<close> for it.
  \<^verbatim>\<open>std::stoi\<close> belongs to the standard library and is a parameter.
\<close>

definition argv_at :: "string list \<Rightarrow> nat \<Rightarrow> string option" where
  "argv_at argv i = (if i < length argv then Some (argv ! i) else None)"

text \<open>
  The option loop of \<^verbatim>\<open>parseConfig\<close> (lines 541-553), over \<^verbatim>\<open>argv[7]\<close> and the
  arguments after it.
\<close>

fun parse_options ::
  "(string \<Rightarrow> stoi_error + int) \<Rightarrow> string list \<Rightarrow> BenchmarkConfig \<Rightarrow>
   exn + BenchmarkConfig" where
  "parse_options stoi [] config = Inr config"
| "parse_options stoi (arg # args) config =
     (if arg = ''--gpu'' \<or> arg = ''gpu'' then
        parse_options stoi args (config\<lparr>use_gpu := True\<rparr>)
      else if arg = ''--cpu'' \<or> arg = ''cpu'' then
        parse_options stoi args (config\<lparr>use_gpu := False\<rparr>)
      else if take 10 arg = ''--threads='' then
        (case stoi (drop 10 arg) of
           Inl e \<Rightarrow> Inl (Stoi_failed e)
         | Inr n \<Rightarrow> parse_options stoi args (config\<lparr>thread_count := n\<rparr>))
      else if arg = ''--quantized'' then
        parse_options stoi args (config\<lparr>quantized := True, precision := ''int8''\<rparr>)
      else parse_options stoi args config)"

text \<open>
  \<^verbatim>\<open>parseConfig\<close> (lines 524-556): fewer than six arguments throw
  \<^verbatim>\<open>std::runtime_error("Invalid arguments")\<close>; otherwise \<^verbatim>\<open>argv[2]\<close> to \<^verbatim>\<open>argv[5]\<close>
  are read and the options are parsed.
\<close>

definition parseConfig ::
  "(string \<Rightarrow> stoi_error + int) \<Rightarrow> string list \<Rightarrow> exn + BenchmarkConfig" where
  "parseConfig stoi argv =
     (if length argv < 6 then Inl Invalid_arguments
      else parse_options stoi (drop 7 argv)
             \<lparr>model_type = argv ! 2, task_type = argv ! 3, model_path = argv ! 4,
              labels_path = argv ! 5, use_gpu = False, thread_count = 1,
              quantized = False, precision = ''fp32''\<rparr>)"

text \<open>
  The option loop of \<^verbatim>\<open>main\<close> (lines 666-673), with \<^verbatim>\<open>iterations\<close> and \<^verbatim>\<open>duration\<close>.
\<close>

fun parse_run_options ::
  "(string \<Rightarrow> stoi_error + int) \<Rightarrow> string list \<Rightarrow> int \<times> int \<Rightarrow> exn + int \<times> int" where
  "parse_run_options stoi [] (iterations, duration) = Inr (iterations, duration)"
| "parse_run_options stoi (arg # args) (iterations, duration) =
     (if take 13 arg = ''--iterations='' then
        (case stoi (drop 13 arg) of
           Inl e \<Rightarrow> Inl (Stoi_failed e)
         | Inr n \<Rightarrow> parse_run_options stoi args (n, duration))
      else if take 11 arg = ''--duration='' then
        (case stoi (drop 11 arg) of
           Inl e \<Rightarrow> Inl (Stoi_failed e)
         | Inr n \<Rightarrow> parse_run_options stoi args (iterations, n))
      else parse_run_options stoi args (iterations, duration))"

text \<open>
  The three calls of a benchmark function in \<^verbatim>\<open>main\<close> (lines 678-685), with their
  arguments.
\<close>

datatype benchmark_call =
    Image_benchmark BenchmarkConfig string int
  | Video_benchmark BenchmarkConfig string
  | Camera_benchmark BenchmarkConfig int int

text \<open>
  The undefined operations a benchmark function executed while it computed the metrics it
  returns, in the order of the statements of the statistics block (lines 371-384).
\<close>

definition undefined_ops :: "PerformanceMetrics \<Rightarrow> undefined_op list" where
  "undefined_ops m =
     concat (map (\<lambda>x. case x of Inl u \<Rightarrow> [u] | Inr v \<Rightarrow> [])
       [total_avg_ms m, fps m, latency_avg_ms m, latency_min_ms m, latency_max_ms m,
        cpu_usage_percent m, gpu_usage_percent m, gpu_memory_used_mb m])"

text \<open>
  What \<^verbatim>\<open>main\<close> does with the result of a benchmark function (lines 678-697). An
  exception reaches the \<^verbatim>\<open>catch\<close> block and \<^verbatim>\<open>main\<close> returns 1. Metrics are printed by
  \<^verbatim>\<open>printCSVRow\<close> and \<^verbatim>\<open>main\<close> returns 0; but when the benchmark function executed an
  undefined operation on the way, the behaviour of the program is undefined from the first
  such operation on, and there is no exit code.
\<close>

definition after_benchmark :: "exn + PerformanceMetrics \<Rightarrow> outcome" where
  "after_benchmark r =
     (case r of
        Inl e \<Rightarrow> Exit 1
      | Inr metrics \<Rightarrow>
          (case undefined_ops metrics of
             [] \<Rightarrow> Exit 0
           | u # us \<Rightarrow> Undefined u))"

text \<open>
  \<^verbatim>\<open>main\<close> of the benchmark tool (lines 559-699) in the single-benchmark modes. The three
  benchmark functions are the parameter \<open>benchmark\<close>; an exception of
  \<^verbatim>\<open>parseConfig\<close> or of \<^verbatim>\<open>std::stoi\<close> reaches the \<^verbatim>\<open>catch\<close> block and \<^verbatim>\<open>main\<close>
  returns 1. The comprehensive mode works on the file system and is not modelled: its
  exit code is the parameter \<open>comprehensive\<close>. \<^verbatim>\<open>std::string input_path = argv[6]\<close> is
  executed right after \<^verbatim>\<open>parseConfig\<close> returns, with no test of \<^verbatim>\<open>argc\<close> in between.
\<close>

definition analyzer_main ::
  "(string \<Rightarrow> stoi_error + int) \<Rightarrow> (benchmark_call \<Rightarrow> exn + PerformanceMetrics) \<Rightarrow>
   int \<Rightarrow> string list \<Rightarrow> outcome" where
  "analyzer_main stoi benchmark comprehensive argv =
     (if length argv < 2 then Exit 1
      else if argv ! 1 = ''comprehensive'' then Exit comprehensive
      else
        (case parseConfig stoi argv of
           Inl e \<Rightarrow> Exit 1
         | Inr config \<Rightarrow>
             (case argv_at argv 6 of
                None \<Rightarrow> Undefined String_from_null
              | Some input_path \<Rightarrow>
                  (case parse_run_options stoi (drop 7 argv) (100, 30) of
                     Inl e \<Rightarrow> Exit 1
                   | Inr (iterations, duration) \<Rightarrow>
                       (if argv ! 1 = ''image'' then
                          after_benchmark
                            (benchmark (Image_benchmark config input_path iterations))
                        else if argv ! 1 = ''video'' then
                          after_benchmark (benchmark (Video_benchmark config input_path))
                        else if argv ! 1 = ''camera'' then
                          (case stoi input_path of
                             Inl e \<Rightarrow> Exit 1
                           | Inr camera_id \<Rightarrow>
                               after_benchmark
                                 (benchmark (Camera_benchmark config camera_id duration)))
                        else Exit 1)))))"

text \<open>
  The benchmark functions of the file, as \<^verbatim>\<open>main\<close> calls them, in an environment in which
  the capture opens or not (\<open>isOpened\<close>), its reads yield \<open>reads\<close>, the loop takes
  \<open>total_time\<close> milliseconds, and \<^verbatim>\<open>cv::imread\<close> returns an empty image: the image
  benchmark (lines 190-206) then throws right after it created the detector, and its
  loop is not modelled.
\<close>

definition benchmark_functions ::
  "bool \<Rightarrow> read_result list \<Rightarrow> real \<Rightarrow> benchmark_call \<Rightarrow> exn + PerformanceMetrics" where
  "benchmark_functions isOpened reads total_time call =
     (case call of
        Image_benchmark config image_path iterations \<Rightarrow>
          (case createDetector config of
             Inl e \<Rightarrow> Inl e
           | Inr detector \<Rightarrow> Inl (Could_not_read_image image_path))
      | Video_benchmark config video_path \<Rightarrow>
          benchmark_video_comprehensive config video_path isOpened reads total_time
      | Camera_benchmark config camera_id duration \<Rightarrow>
          benchmark_camera_comprehensive config camera_id isOpened reads total_time)"

text \<open>
  An outcome all of whose operations were defined, and example inputs: a
  \<^verbatim>\<open>std::stoi\<close> on the strings of the examples (\<^verbatim>\<open>"4"\<close> and \<^verbatim>\<open>"0"\<close> convert; a
  string that does not start with a number, such as \<^verbatim>\<open>"abc"\<close> or a path, throws
  \<^verbatim>\<open>std::invalid_argument\<close>), a command line of six arguments, and the configuration
  \<^verbatim>\<open>parseConfig\<close> builds from it.
\<close>

definition never_undefined :: "outcome \<Rightarrow> bool" where
  "never_undefined r = (case r of Undefined u \<Rightarrow> False | _ \<Rightarrow> True)"

definition stoi_digit :: "string \<Rightarrow> stoi_error + int" where
  "stoi_digit s = (if s = ''4'' then Inr 4 else if s = ''0'' then Inr 0 else Inl Invalid_argument)"

definition six_arguments :: "string list" where
  "six_arguments =
     [''yolo_performance_analyzer'', ''video'', ''yolo11'', ''detection'',
      ''models/yolo11n.onnx'', ''models/coco.names'']"

definition yolo11_config :: BenchmarkConfig where
  "yolo11_config =
     \<lparr>model_type = ''yolo11'', task_type = ''detection'',
      model_path = ''models/yolo11n.onnx'', labels_path = ''models/coco.names'',
      use_gpu = False, thread_count = 1, quantized = False, precision = ''fp32''\<rparr>"

section \<open>Properties of the queue\<close>

subsection \<open>Case analysis of the queue calls\<close>

lemma enqueue_cases [consumes 1, case_names accepted rejected]:
  assumes "enqueue x q = Returns (ok, q')"
  obtains
    "ok" "\<not> finished q" "length (buf q) \<noteq> max_size q" "q' = q\<lparr>buf := buf q @ [x]\<rparr>"
  | "\<not> ok" "finished q" "q' = q"
  using assms by (auto simp: enqueue_def split: if_splits)

lemma dequeue_cases [consumes 1, case_names item closed]:
  assumes "dequeue q = Returns (r, q')"
  obtains
    x xs where "r = Some x" "buf q = x # xs" "q' = q\<lparr>buf := xs\<rparr>"
  | "r = None" "buf q = []" "finished q" "q' = q"
  using assms by (auto simp: dequeue_def split: list.splits if_splits)

lemma set_finished_simps [simp]:
  "finished (set_finished q) = True"
  "buf (set_finished q) = buf q"
  "max_size (set_finished q) = max_size q"
  by (simp_all add: set_finished_def)

lemma qcall_cases [consumes 1, case_names put_accepted put_rejected get_item get_closed mark]:
  assumes "qcall c q = Returns (r, q')"
  obtains
    x where "c = Put x" "r = Accepted" "\<not> finished q" "q' = q\<lparr>buf := buf q @ [x]\<rparr>"
  | x where "c = Put x" "r = NotAccepted" "finished q" "q' = q"
  | x xs where "c = Get" "r = Item x" "buf q = x # xs" "q' = q\<lparr>buf := xs\<rparr>"
  | "c = Get" "r = Closed" "buf q = []" "finished q" "q' = q"
  | "c = MarkFinished" "r = Marked" "q' = set_finished q"
proof (cases c)
  case (Put x)
  with assms obtain ok where e: "enqueue x q = Returns (ok, q')"
    and r: "r = (if ok then Accepted else NotAccepted)"
    by (auto simp: qcall_def split: call.splits)
  from e show ?thesis
    by (cases rule: enqueue_cases) (use Put r that(1,2) in auto)
next
  case Get
  with assms obtain v where e: "dequeue q = Returns (v, q')"
    and r: "r = (case v of None \<Rightarrow> Closed | Some x \<Rightarrow> Item x)"
    by (auto simp: qcall_def split: call.splits)
  from e show ?thesis
    by (cases rule: dequeue_cases) (use Get r that(3,4) in auto)
next
  case MarkFinished
  with assms that(5) show ?thesis by (simp add: qcall_def)
qed

lemma qcalls_Cons_cases [consumes 1]:
  assumes "qcalls (c # cs) q = Some (rs, q')"
  obtains r q1 rs1 where "qcall c q = Returns (r, q1)" "qcalls cs q1 = Some (rs1, q')"
    "rs = r # rs1"
  using assms by (auto split: call.splits option.splits)

subsection \<open>The closed signal\<close>

lemma dequeue_nonempty:
  "buf q \<noteq> [] \<Longrightarrow> dequeue q = Returns (Some (hd (buf q)), q\<lparr>buf := tl (buf q)\<rparr>)"
  by (cases "buf q") (simp_all add: dequeue_def)

lemma dequeue_closed_iff:
  "(\<exists>q'. dequeue q = Returns (None, q')) \<longleftrightarrow> buf q = [] \<and> finished q"
  by (cases "buf q") (simp_all add: dequeue_def)

lemma finished_drain:
  "finished q \<Longrightarrow>
   \<exists>rs q'. qcalls cs q = Some (rs, q') \<and> finished q' \<and>
     get_results rs =
       map Item (take (count_gets cs) (buf q)) @
       replicate (count_gets cs - length (buf q)) Closed \<and>
     buf q' = drop (count_gets cs) (buf q)"
proof (induction cs arbitrary: q)
  case Nil
  then show ?case by (simp add: get_results_def count_gets_def)
next
  case (Cons c cs)
  show ?case
  proof (cases c)
    case (Put x)
    have "qcall c q = Returns (NotAccepted, q)"
      using Cons.prems Put by (simp add: qcall_def enqueue_def)
    with Cons.IH[OF Cons.prems] Put show ?thesis
      by (auto simp: get_results_def count_gets_def)
  next
    case Get
    show ?thesis
    proof (cases "buf q")
      case Nil
      have "qcall c q = Returns (Closed, q)"
        using Cons.prems Get Nil by (simp add: qcall_def dequeue_def)
      with Cons.IH[OF Cons.prems] Get Nil show ?thesis
        by (auto simp: get_results_def count_gets_def replicate_app_Cons_same)
    next
      case (Cons x xs)
      let ?q = "q\<lparr>buf := xs\<rparr>"
      have "qcall c q = Returns (Item x, ?q)"
        using Get Cons by (simp add: qcall_def dequeue_def)
      moreover have "finished ?q" using Cons.prems by simp
      ultimately show ?thesis
        using Cons.IH[of ?q] Get Cons by (auto simp: get_results_def count_gets_def)
    qed
  next
    case MarkFinished
    have "qcall c q = Returns (Marked, q)"
      using Cons.prems MarkFinished by (simp add: qcall_def set_finished_def)
    with Cons.IH[OF Cons.prems] MarkFinished show ?thesis
      by (auto simp: get_results_def count_gets_def)
  qed
qed

lemma set_finished_twice: "set_finished (set_finished q) = set_finished q"
  by (simp add: set_finished_def)

text \<open>
  Claim C4. \<open>dequeue\<close> returns the oldest buffered item whenever the buffer is not
  empty, whether the queue is finished or not, and returns closed exactly when the buffer
  is empty and the queue is finished. After \<open>set_finished\<close>, whatever calls follow (puts,
  gets, more \<open>set_finished\<close>), none of them blocks, and the results of the gets are the
  \<open>B\<close> buffered items in order, followed by closed for every further get. A second
  \<open>set_finished\<close> changes nothing.
\<close>

theorem closed_signal_correct:
  "(buf q \<noteq> [] \<longrightarrow>
      dequeue q = Returns (Some (hd (buf q)), q\<lparr>buf := tl (buf q)\<rparr>)) \<and>
   ((\<exists>q'. dequeue q = Returns (None, q')) \<longleftrightarrow> buf q = [] \<and> finished q) \<and>
   (\<exists>rs q'. qcalls cs (set_finished q) = Some (rs, q') \<and>
      get_results rs =
        map Item (take (count_gets cs) (buf q)) @
        replicate (count_gets cs - length (buf q)) Closed) \<and>
   set_finished (set_finished q) = set_finished q"
proof -
  have fin: "finished (set_finished q)" and same: "buf (set_finished q) = buf q"
    by (simp_all add: set_finished_def)
  from finished_drain[OF fin, of cs] same
  have "\<exists>rs q'. qcalls cs (set_finished q) = Some (rs, q') \<and>
      get_results rs =
        map Item (take (count_gets cs) (buf q)) @
        replicate (count_gets cs - length (buf q)) Closed"
    by auto
  then show ?thesis
    using dequeue_nonempty[of q] dequeue_closed_iff[of q] set_finished_twice[of q]
    by blast
qed

text \<open>
  Claim C4 on a queue that holds 7 and 8: the gets return 7, then 8, then closed; a put
  after \<open>set_finished\<close> is not accepted.
\<close>

theorem closed_signal_correct_witness:
  "dequeue \<lparr>buf = [7, 8 :: nat], max_size = 2, finished = True\<rparr> =
     Returns (Some 7, \<lparr>buf = [8], max_size = 2, finished = True\<rparr>) \<and>
   qcalls [Get, Put 9, Get, Get, MarkFinished, Get]
       (set_finished \<lparr>buf = [7, 8 :: nat], max_size = 2, finished = False\<rparr>) =
     Some ([Item 7, NotAccepted, Item 8, Closed, Marked, Closed],
           \<lparr>buf = [], max_size = 2, finished = True\<rparr>) \<and>
   get_results [Item 7, NotAccepted, Item 8, Closed, Marked, Closed :: nat qres] =
     [Item 7, Item 8, Closed, Closed] \<and>
   dequeue \<lparr>buf = [] :: nat list, max_size = 2, finished = False\<rparr> = Blocks"
  using closed_signal_correct
    [of "\<lparr>buf = [7, 8 :: nat], max_size = 2, finished = True\<rparr>" "[]"]
  by (simp add: dequeue_def enqueue_def qcall_def set_finished_def get_results_def)

subsection \<open>Capacity\<close>

lemma enqueue_capacity:
  "enqueue x q = Returns (ok, q') \<Longrightarrow> within_capacity q \<Longrightarrow>
   within_capacity q' \<and> max_size q' = max_size q"
  by (auto simp: enqueue_def within_capacity_def split: if_splits)

lemma dequeue_capacity:
  "dequeue q = Returns (r, q') \<Longrightarrow> within_capacity q \<Longrightarrow>
   within_capacity q' \<and> max_size q' = max_size q"
  by (auto simp: dequeue_def within_capacity_def split: list.splits if_splits)

lemma set_finished_capacity:
  "within_capacity q \<Longrightarrow>
   within_capacity (set_finished q) \<and> max_size (set_finished q) = max_size q"
  by (simp add: set_finished_def within_capacity_def)

lemma qcall_capacity:
  "qcall c q = Returns (r, q') \<Longrightarrow> within_capacity q \<Longrightarrow>
   within_capacity q' \<and> max_size q' = max_size q"
  by (cases c)
     (auto simp: qcall_def split: call.splits prod.splits
           dest: enqueue_capacity dequeue_capacity set_finished_capacity)

lemma qcalls_capacity:
  "qcalls cs q = Some (rs, q') \<Longrightarrow> within_capacity q \<Longrightarrow>
   within_capacity q' \<and> max_size q' = max_size q"
proof (induction cs arbitrary: q rs)
  case Nil
  then show ?case by simp
next
  case (Cons c cs)
  from Cons.prems(1) obtain r q1 rs1 where
    c: "qcall c q = Returns (r, q1)" and rest: "qcalls cs q1 = Some (rs1, q')"
    by (auto split: call.splits option.splits)
  from qcall_capacity[OF c Cons.prems(2)] Cons.IH[OF rest] show ?case by simp
qed

lemma puts_accepted:
  "\<not> finished q \<Longrightarrow> length (buf q) + length xs \<le> max_size q \<Longrightarrow>
   qcalls (map Put xs) q = Some (replicate (length xs) Accepted, q\<lparr>buf := buf q @ xs\<rparr>)"
proof (induction xs arbitrary: q)
  case Nil
  then show ?case by simp
next
  case (Cons x xs)
  let ?q = "q\<lparr>buf := buf q @ [x]\<rparr>"
  have "qcall (Put x) q = Returns (Accepted, ?q)"
    using Cons.prems by (simp add: qcall_def enqueue_def)
  moreover have "qcalls (map Put xs) ?q =
      Some (replicate (length xs) Accepted, ?q\<lparr>buf := buf ?q @ xs\<rparr>)"
    using Cons.prems by (intro Cons.IH) simp_all
  ultimately show ?case by simp
qed

subsection \<open>First in, first out\<close>

lemma put_items_simps [simp]:
  "put_items [] = []"
  "put_items (Put x # cs) = x # put_items cs"
  "put_items (Get # cs) = put_items cs"
  "put_items (MarkFinished # cs) = put_items cs"
  by (simp_all add: put_items_def List.map_filter_def)

lemma received_items_simps [simp]:
  "received_items [] = []"
  "received_items (Item x # rs) = x # received_items rs"
  "received_items (Accepted # rs) = received_items rs"
  "received_items (NotAccepted # rs) = received_items rs"
  "received_items (Closed # rs) = received_items rs"
  "received_items (Marked # rs) = received_items rs"
  by (simp_all add: received_items_def List.map_filter_def)

lemma qcalls_fifo:
  "qcalls cs q = Some (rs, q') \<Longrightarrow> NotAccepted \<notin> set rs \<Longrightarrow>
   buf q @ put_items cs = received_items rs @ buf q'"
proof (induction cs arbitrary: q rs)
  case Nil
  then show ?case by simp
next
  case (Cons c cs)
  from Cons.prems(1) obtain r q1 rs1 where
    c: "qcall c q = Returns (r, q1)" and rest: "qcalls cs q1 = Some (rs1, q')"
    and rs: "rs = r # rs1"
    by (rule qcalls_Cons_cases)
  from Cons.prems(2) rs have "NotAccepted \<notin> set rs1" by simp
  from Cons.IH[OF rest this] have ih: "buf q1 @ put_items cs = received_items rs1 @ buf q'" .
  from c show ?case
    by (cases rule: qcall_cases) (use ih rs Cons.prems(2) in auto)
qed

lemma finished_empty_stays:
  "qcalls cs q = Some (rs, q') \<Longrightarrow> finished q \<Longrightarrow> buf q = [] \<Longrightarrow> buf q' = []"
proof (induction cs arbitrary: q rs)
  case Nil
  then show ?case by simp
next
  case (Cons c cs)
  from Cons.prems(1) obtain r q1 rs1 where
    c: "qcall c q = Returns (r, q1)" and rest: "qcalls cs q1 = Some (rs1, q')"
    by (rule qcalls_Cons_cases)
  from c Cons.prems(2,3) have "finished q1 \<and> buf q1 = []"
    by (cases rule: qcall_cases) auto
  with Cons.IH[OF rest] show ?case by simp
qed

lemma closed_drained:
  "qcalls cs q = Some (rs, q') \<Longrightarrow> Closed \<in> set rs \<Longrightarrow> buf q' = []"
proof (induction cs arbitrary: q rs)
  case Nil
  then show ?case by simp
next
  case (Cons c cs)
  from Cons.prems(1) obtain r q1 rs1 where
    c: "qcall c q = Returns (r, q1)" and rest: "qcalls cs q1 = Some (rs1, q')"
    and rs: "rs = r # rs1"
    by (rule qcalls_Cons_cases)
  show ?case
  proof (cases "r = Closed")
    case True
    with c have "finished q1 \<and> buf q1 = []" by (cases rule: qcall_cases) auto
    with finished_empty_stays[OF rest] show ?thesis by simp
  next
    case False
    with Cons.prems(2) rs have "Closed \<in> set rs1" by simp
    with Cons.IH[OF rest] show ?thesis by simp
  qed
qed

section \<open>Properties of the pipeline\<close>

subsection \<open>Case analysis of the steps\<close>

lemma producer_step_cases
  [consumes 1, case_names Head_stop Head_eof Head_read Enq_accepted Enq_rejected Finish]:
  assumes "producer_step s = Some s'"
  obtains
    "producer s = P_Head" "stopFlag s" "s' = s\<lparr>producer := P_Finish\<rparr>"
  | "producer s = P_Head" "\<not> stopFlag s" "cap s = []" "s' = s\<lparr>producer := P_Finish\<rparr>"
  | f fs where "producer s = P_Head" "\<not> stopFlag s" "cap s = f # fs"
      "s' = s\<lparr>cap := fs, producer := P_Enq f\<rparr>"
  | f where "producer s = P_Enq f" "\<not> finished (frameQueue s)"
      "length (buf (frameQueue s)) \<noteq> max_size (frameQueue s)"
      "s' = s\<lparr>frameQueue := (frameQueue s)\<lparr>buf := buf (frameQueue s) @ [f]\<rparr>,
               producer := P_Head, history := history s @ [EnqA f True]\<rparr>"
  | f where "producer s = P_Enq f" "finished (frameQueue s)"
      "s' = s\<lparr>producer := P_Finish, history := history s @ [EnqA f False]\<rparr>"
  | "producer s = P_Finish"
      "s' = s\<lparr>frameQueue := set_finished (frameQueue s), producer := P_Done,
               history := history s @ [FinA Producer]\<rparr>"
proof (cases "producer s")
  case P_Head
  with assms that(1,2,3) show ?thesis
    by (cases "cap s") (auto simp: producer_step_def split: if_splits)
next
  case (P_Enq f)
  with assms obtain ok q where e: "enqueue f (frameQueue s) = Returns (ok, q)"
    and s': "s' = s\<lparr>frameQueue := q, producer := (if ok then P_Head else P_Finish),
                    history := history s @ [EnqA f ok]\<rparr>"
    by (auto simp: producer_step_def split: call.splits)
  from e show ?thesis
  proof (cases rule: enqueue_cases)
    case accepted
    with P_Enq s' that(4) show ?thesis by simp
  next
    case rejected
    with P_Enq s' that(5) show ?thesis by simp
  qed
next
  case P_Finish
  with assms that(6) show ?thesis by (simp add: producer_step_def)
next
  case P_Done
  with assms show ?thesis by (simp add: producer_step_def)
qed

lemma consumer_step_cases
  [consumes 1, case_names Head_stop Head_go Deq_item Deq_closed Detect_ok Detect_throws
     Enq_accepted Enq_rejected Finish]:
  assumes "consumer_step detect s = Some s'"
  obtains
    "consumer s = C_Head" "stopFlag s" "s' = s\<lparr>consumer := C_Finish\<rparr>"
  | "consumer s = C_Head" "\<not> stopFlag s" "s' = s\<lparr>consumer := C_Deq\<rparr>"
  | f fs where "consumer s = C_Deq" "buf (frameQueue s) = f # fs"
      "s' = s\<lparr>frameQueue := (frameQueue s)\<lparr>buf := fs\<rparr>, consumer := C_Detect f,
               history := history s @ [DeqA (Some f)]\<rparr>"
  | "consumer s = C_Deq" "buf (frameQueue s) = []" "finished (frameQueue s)"
      "s' = s\<lparr>consumer := C_Finish, history := history s @ [DeqA None]\<rparr>"
  | f d where "consumer s = C_Detect f" "detect f = Inr d" "s' = s\<lparr>consumer := C_Enq f d\<rparr>"
  | f e where "consumer s = C_Detect f" "detect f = Inl e" "s' = s\<lparr>terminate_called := True\<rparr>"
  | f d where "consumer s = C_Enq f d" "\<not> finished (processedQueue s)"
      "length (buf (processedQueue s)) \<noteq> max_size (processedQueue s)"
      "s' = s\<lparr>processedQueue := (processedQueue s)\<lparr>buf := buf (processedQueue s) @ [(f, d)]\<rparr>,
               consumer := C_Head, history := history s @ [EnqB f d True]\<rparr>"
  | f d where "consumer s = C_Enq f d" "finished (processedQueue s)"
      "s' = s\<lparr>consumer := C_Finish, history := history s @ [EnqB f d False]\<rparr>"
  | "consumer s = C_Finish"
      "s' = s\<lparr>processedQueue := set_finished (processedQueue s), consumer := C_Done,
               history := history s @ [FinB Consumer]\<rparr>"
proof (cases "consumer s")
  case C_Head
  with assms that(1,2) show ?thesis
    by (auto simp: consumer_step_def split: if_splits)
next
  case C_Deq
  with assms obtain r q where e: "dequeue (frameQueue s) = Returns (r, q)"
    and s': "s' = s\<lparr>frameQueue := q,
                    consumer := (case r of None \<Rightarrow> C_Finish | Some f \<Rightarrow> C_Detect f),
                    history := history s @ [DeqA r]\<rparr>"
    by (auto simp: consumer_step_def split: call.splits)
  from e show ?thesis
  proof (cases rule: dequeue_cases)
    case (item x xs)
    with C_Deq s' that(3) show ?thesis by simp
  next
    case closed
    with C_Deq s' that(4) show ?thesis by simp
  qed
next
  case (C_Detect f)
  with assms that(5,6) show ?thesis
    by (cases "detect f") (auto simp: consumer_step_def)
next
  case (C_Enq f d)
  with assms obtain ok q where e: "enqueue (f, d) (processedQueue s) = Returns (ok, q)"
    and s': "s' = s\<lparr>processedQueue := q, consumer := (if ok then C_Head else C_Finish),
                    history := history s @ [EnqB f d ok]\<rparr>"
    by (auto simp: consumer_step_def split: call.splits)
  from e show ?thesis
  proof (cases rule: enqueue_cases)
    case accepted
    with C_Enq s' that(7) show ?thesis by simp
  next
    case rejected
    with C_Enq s' that(8) show ?thesis by simp
  qed
next
  case C_Finish
  with assms that(9) show ?thesis by (simp add: consumer_step_def)
next
  case C_Done
  with assms show ?thesis by (simp add: consumer_step_def)
qed

lemma display_step_cases
  [consumes 1, case_names Head_stop Head_go Deq_item Deq_closed Show_quit Show_next
     Show_last Quit_flag Quit_A Quit_B]:
  assumes "display_step s = Some s'"
  obtains
    "displayThread s = D_Head" "stopFlag s" "s' = s\<lparr>displayThread := D_Done\<rparr>"
  | "displayThread s = D_Head" "\<not> stopFlag s" "s' = s\<lparr>displayThread := D_Deq\<rparr>"
  | f d xs where "displayThread s = D_Deq" "buf (processedQueue s) = (f, d) # xs"
      "s' = s\<lparr>processedQueue := (processedQueue s)\<lparr>buf := xs\<rparr>, displayThread := D_Show f d,
               history := history s @ [DeqB (Some (f, d))]\<rparr>"
  | "displayThread s = D_Deq" "buf (processedQueue s) = []" "finished (processedQueue s)"
      "s' = s\<lparr>displayThread := D_Done, history := history s @ [DeqB None]\<rparr>"
  | f d ks where "displayThread s = D_Show f d" "keys s = True # ks"
      "s' = s\<lparr>keys := ks, displayThread := D_Quit1, history := history s @ [Imshow f d]\<rparr>"
  | f d ks where "displayThread s = D_Show f d" "keys s = False # ks"
      "s' = s\<lparr>keys := ks, displayThread := D_Head, history := history s @ [Imshow f d]\<rparr>"
  | f d where "displayThread s = D_Show f d" "keys s = []"
      "s' = s\<lparr>displayThread := D_Head, history := history s @ [Imshow f d]\<rparr>"
  | "displayThread s = D_Quit1" "s' = s\<lparr>stopFlag := True, displayThread := D_Quit2\<rparr>"
  | "displayThread s = D_Quit2"
      "s' = s\<lparr>frameQueue := set_finished (frameQueue s), displayThread := D_Quit3,
               history := history s @ [FinA Display]\<rparr>"
  | "displayThread s = D_Quit3"
      "s' = s\<lparr>processedQueue := set_finished (processedQueue s), displayThread := D_Done,
               history := history s @ [FinB Display]\<rparr>"
proof (cases "displayThread s")
  case D_Head
  with assms that(1,2) show ?thesis
    by (auto simp: display_step_def split: if_splits)
next
  case D_Deq
  with assms obtain r q where e: "dequeue (processedQueue s) = Returns (r, q)"
    and s': "s' = s\<lparr>processedQueue := q,
                    displayThread := (case r of None \<Rightarrow> D_Done | Some (f, d) \<Rightarrow> D_Show f d),
                    history := history s @ [DeqB r]\<rparr>"
    by (auto simp: display_step_def split: call.splits)
  from e show ?thesis
  proof (cases rule: dequeue_cases)
    case (item x xs)
    with D_Deq s' that(3)[of "fst x" "snd x" xs] show ?thesis by (cases x) simp
  next
    case closed
    with D_Deq s' that(4) show ?thesis by simp
  qed
next
  case (D_Show f d)
  show ?thesis
  proof (cases "keys s")
    case Nil
    with assms D_Show that(7)[of f d] show ?thesis by (simp add: display_step_def)
  next
    case (Cons k ks)
    with assms D_Show that(5)[of f d ks] that(6)[of f d ks] show ?thesis
      by (cases k) (simp_all add: display_step_def)
  qed
next
  case D_Quit1
  with assms that(8) show ?thesis by (simp add: display_step_def)
next
  case D_Quit2
  with assms that(9) show ?thesis by (simp add: display_step_def)
next
  case D_Quit3
  with assms that(10) show ?thesis by (simp add: display_step_def)
next
  case D_Done
  with assms show ?thesis by (simp add: display_step_def)
qed

lemma step_cases [consumes 1, case_names Producer Consumer Display]:
  assumes "step detect t s = Some s'"
  obtains
    "t = Producer" "\<not> terminate_called s" "producer_step s = Some s'"
  | "t = Consumer" "\<not> terminate_called s" "consumer_step detect s = Some s'"
  | "t = Display" "\<not> terminate_called s" "display_step s = Some s'"
  using assms by (cases t) (auto simp: step_def split: if_splits)

lemma run_append: "run detect (xs @ ys) s = run detect ys (run detect xs s)"
  by (induction xs arbitrary: s) (auto split: option.splits)

subsection \<open>The queues stay within their capacity\<close>

lemma producer_step_bounded:
  "producer_step s = Some s' \<Longrightarrow> queues_bounded s \<Longrightarrow> queues_bounded s'"
  unfolding producer_step_def queues_bounded_def
  by (cases "producer s")
     (auto split: if_splits list.splits call.splits
           dest: enqueue_capacity set_finished_capacity)

lemma consumer_step_bounded:
  "consumer_step detect s = Some s' \<Longrightarrow> queues_bounded s \<Longrightarrow> queues_bounded s'"
  unfolding consumer_step_def queues_bounded_def
  by (cases "consumer s")
     (auto split: if_splits sum.splits call.splits
           dest: enqueue_capacity dequeue_capacity set_finished_capacity)

lemma display_step_bounded:
  "display_step s = Some s' \<Longrightarrow> queues_bounded s \<Longrightarrow> queues_bounded s'"
  unfolding display_step_def queues_bounded_def
  by (cases "displayThread s")
     (auto split: if_splits list.splits call.splits
           dest: dequeue_capacity set_finished_capacity)

lemma step_bounded:
  "step detect t s = Some s' \<Longrightarrow> queues_bounded s \<Longrightarrow> queues_bounded s'"
  by (cases t)
     (auto simp: step_def split: if_splits
           dest: producer_step_bounded consumer_step_bounded display_step_bounded)

lemma run_bounded: "queues_bounded s \<Longrightarrow> queues_bounded (run detect sched s)"
  by (induction sched arbitrary: s) (auto split: option.splits dest: step_bounded)

lemma init_bounded: "queues_bounded (init frames ks)"
  by (simp add: queues_bounded_def init_def new_queue_def within_capacity_def)

text \<open>
  Claim C5. A queue of capacity \<open>K\<close> never buffers more than \<open>K\<close> items, whatever
  calls are made on it. After \<open>K\<close> accepted puts with no get the buffer holds exactly
  the items put, in order, and a further put blocks; after one get it is accepted, behind
  the remaining items; after \<open>set_finished\<close> it returns not-accepted and the buffer is
  unchanged. In the pipeline both queues are created with capacity 2, and along every run
  neither buffers more than 2 items.
\<close>

theorem capacity_never_exceeded:
  fixes xs :: "'a list" and detect :: "'f \<Rightarrow> 'e + 'd"
  shows
  "(\<forall>cs rs q'. qcalls cs (new_queue K :: 'a bqueue) = Some (rs, q') \<longrightarrow>
       length (buf q') \<le> K) \<and>
   (length xs = K \<longrightarrow>
      (\<exists>q. qcalls (map Put xs) (new_queue K) = Some (replicate K Accepted, q) \<and>
           buf q = xs \<and>
           enqueue x q = Blocks \<and>
           (0 < K \<longrightarrow>
              qcalls [Get, Put x] q =
                Some ([Item (hd xs), Accepted], q\<lparr>buf := tl xs @ [x]\<rparr>)) \<and>
           qcalls [MarkFinished, Put x] q =
             Some ([Marked, NotAccepted], set_finished q))) \<and>
   max_size (frameQueue (init frames ks :: ('f, 'd) pipeline)) = 2 \<and>
   max_size (processedQueue (init frames ks :: ('f, 'd) pipeline)) = 2 \<and>
   length (buf (frameQueue (run detect sched (init frames ks)))) \<le> 2 \<and>
   length (buf (processedQueue (run detect sched (init frames ks)))) \<le> 2"
proof -
  have new: "within_capacity (new_queue K :: 'a bqueue)"
    "max_size (new_queue K :: 'a bqueue) = K"
    by (simp_all add: within_capacity_def new_queue_def)
  have bound: "\<forall>cs rs q'. qcalls cs (new_queue K :: 'a bqueue) = Some (rs, q') \<longrightarrow>
       length (buf q') \<le> K"
    using qcalls_capacity[OF _ new(1)] new(2) by (fastforce simp: within_capacity_def)
  have full: "\<exists>q. qcalls (map Put xs) (new_queue K) = Some (replicate K Accepted, q) \<and>
           buf q = xs \<and>
           enqueue x q = Blocks \<and>
           (0 < K \<longrightarrow>
              qcalls [Get, Put x] q =
                Some ([Item (hd xs), Accepted], q\<lparr>buf := tl xs @ [x]\<rparr>)) \<and>
           qcalls [MarkFinished, Put x] q =
             Some ([Marked, NotAccepted], set_finished q)"
    if len: "length xs = K"
  proof -
    let ?q = "(new_queue K :: 'a bqueue)\<lparr>buf := xs\<rparr>"
    have "qcalls (map Put xs) (new_queue K) = Some (replicate (length xs) Accepted, ?q)"
      using puts_accepted[of "new_queue K" xs] len by (simp add: new_queue_def)
    moreover have "enqueue x ?q = Blocks"
      using len by (simp add: enqueue_def new_queue_def)
    moreover have "qcalls [Get, Put x] ?q =
        Some ([Item (hd xs), Accepted], ?q\<lparr>buf := tl xs @ [x]\<rparr>)" if "0 < K"
      using that len
      by (cases xs) (simp_all add: qcall_def dequeue_def enqueue_def new_queue_def)
    moreover have "qcalls [MarkFinished, Put x] ?q =
        Some ([Marked, NotAccepted], set_finished ?q)"
      by (simp add: qcall_def enqueue_def set_finished_def)
    ultimately show ?thesis using len by (intro exI[of _ ?q]) simp
  qed
  have pipe: "queues_bounded (run detect sched (init frames ks :: ('f, 'd) pipeline))"
    by (rule run_bounded[OF init_bounded])
  have "max_size (frameQueue (init frames ks :: ('f, 'd) pipeline)) = 2"
    "max_size (processedQueue (init frames ks :: ('f, 'd) pipeline)) = 2"
    by (simp_all add: init_def new_queue_def max_queue_size_def)
  moreover have
    "length (buf (frameQueue (run detect sched (init frames ks)))) \<le> 2"
    "length (buf (processedQueue (run detect sched (init frames ks)))) \<le> 2"
    using pipe by (simp_all add: queues_bounded_def within_capacity_def max_queue_size_def)
  ultimately show ?thesis using bound full by blast
qed

text \<open>
  Claim C5 for \<open>K = 2\<close>, and a producer that runs alone on three frames: two are
  buffered and it waits with the third.
\<close>

theorem capacity_never_exceeded_witness:
  "length [4, 5 :: nat] = 2 \<and>
   qcalls [Put 4, Put 5] (new_queue 2) =
     Some ([Accepted, Accepted], \<lparr>buf = [4, 5 :: nat], max_size = 2, finished = False\<rparr>) \<and>
   enqueue (6 :: nat) \<lparr>buf = [4, 5], max_size = 2, finished = False\<rparr> = Blocks \<and>
   qcalls [Get, Put 6] \<lparr>buf = [4, 5 :: nat], max_size = 2, finished = False\<rparr> =
     Some ([Item 4, Accepted], \<lparr>buf = [5, 6], max_size = 2, finished = False\<rparr>) \<and>
   qcalls [MarkFinished, Put 6] \<lparr>buf = [4, 5 :: nat], max_size = 2, finished = False\<rparr> =
     Some ([Marked, NotAccepted], \<lparr>buf = [4, 5], max_size = 2, finished = True\<rparr>) \<and>
   length (buf (frameQueue
     (run (\<lambda>f. Inr f :: unit + nat) [Producer, Producer, Producer, Producer, Producer,
        Producer, Producer] (init [1, 2, 3 :: nat] [])))) = 2"
  using capacity_never_exceeded
    [where K = 2 and xs = "[4, 5 :: nat]" and x = 6 and frames = "[1, 2, 3 :: nat]"
       and ks = "[]" and detect = "\<lambda>f. Inr f :: unit + nat"
       and sched = "[Producer, Producer, Producer, Producer, Producer, Producer, Producer]"]
  by (simp add: qcall_def enqueue_def dequeue_def set_finished_def new_queue_def
        init_def max_queue_size_def step_def producer_step_def)

subsection \<open>Shutdown invariants\<close>

lemma init_shutdown_consistent: "shutdown_consistent (init frames ks)"
  by (simp add: shutdown_consistent_def init_def new_queue_def)

lemma producer_step_consistent:
  assumes "producer_step s = Some s'" and "shutdown_consistent s"
  shows "shutdown_consistent s'"
  using assms
  by (cases rule: producer_step_cases) (auto simp: shutdown_consistent_def)

lemma consumer_step_consistent:
  assumes "consumer_step detect s = Some s'" and "shutdown_consistent s"
  shows "shutdown_consistent s'"
  using assms
  by (cases rule: consumer_step_cases) (auto simp: shutdown_consistent_def)

lemma display_step_consistent:
  assumes "display_step s = Some s'" and "shutdown_consistent s"
  shows "shutdown_consistent s'"
  using assms
  by (cases rule: display_step_cases) (auto simp: shutdown_consistent_def)

lemma step_consistent:
  assumes "step detect t s = Some s'" and "shutdown_consistent s"
  shows "shutdown_consistent s'"
  using assms
  by (cases rule: step_cases)
     (auto dest: producer_step_consistent consumer_step_consistent display_step_consistent)

lemma run_consistent:
  "shutdown_consistent s \<Longrightarrow> shutdown_consistent (run detect sched s)"
  by (induction sched arbitrary: s) (auto split: option.splits dest: step_consistent)

lemma init_exit_accounted: "producer_exit_accounted (init frames ks)"
  by (simp add: producer_exit_accounted_def init_def)

lemma step_exit_accounted:
  assumes "step detect t s = Some s'" and "producer_exit_accounted s"
  shows "producer_exit_accounted s'"
  using assms(1)
proof (cases rule: step_cases)
  case Producer
  from Producer(3) assms(2) show ?thesis
    by (cases rule: producer_step_cases) (auto simp: producer_exit_accounted_def)
next
  case Consumer
  from Consumer(3) assms(2) show ?thesis
    by (cases rule: consumer_step_cases) (auto simp: producer_exit_accounted_def)
next
  case Display
  from Display(3) assms(2) show ?thesis
    by (cases rule: display_step_cases) (auto simp: producer_exit_accounted_def)
qed

lemma run_exit_accounted:
  "producer_exit_accounted s \<Longrightarrow> producer_exit_accounted (run detect sched s)"
  by (induction sched arbitrary: s) (auto split: option.splits dest: step_exit_accounted)

subsection \<open>No deadlock, and every fair run ends\<close>

lemma producer_step_potential:
  assumes "producer_step s = Some s'"
  shows "potential s' < potential s"
  using assms
  by (cases rule: producer_step_cases)
     (auto simp: potential_def upstream_A_def upstream_B_def
           split: cpc.splits dpc.splits)

lemma consumer_step_potential:
  assumes "consumer_step detect s = Some s'" and "\<not> terminate_called s"
  shows "potential s' < potential s"
  using assms
  by (cases rule: consumer_step_cases)
     (auto simp: potential_def upstream_A_def upstream_B_def
           split: ppc.splits dpc.splits)

lemma display_step_potential:
  assumes "display_step s = Some s'"
  shows "potential s' < potential s"
  using assms
  by (cases rule: display_step_cases)
     (auto simp: potential_def upstream_A_def upstream_B_def
           split: ppc.splits cpc.splits)

lemma step_potential:
  assumes "step detect t s = Some s'"
  shows "potential s' < potential s"
  using assms
  by (cases rule: step_cases)
     (auto dest: producer_step_potential consumer_step_potential display_step_potential)

lemma run_potential: "potential (run detect sched s) \<le> potential s"
proof (induction sched arbitrary: s)
  case Nil
  show ?case by simp
next
  case (Cons t ts)
  show ?case
  proof (cases "step detect t s")
    case None
    with Cons.IH[of s] show ?thesis by simp
  next
    case (Some s')
    with Cons.IH[of s'] step_potential[OF Some] show ?thesis by simp
  qed
qed

lemma producer_blocked:
  "producer_step s = None \<longleftrightarrow>
     producer s = P_Done \<or>
     (\<exists>f. producer s = P_Enq f \<and>
          length (buf (frameQueue s)) = max_size (frameQueue s) \<and>
          \<not> finished (frameQueue s))"
  by (cases "producer s")
     (auto simp: producer_step_def enqueue_def split: list.splits)

lemma consumer_blocked:
  "consumer_step detect s = None \<longleftrightarrow>
     consumer s = C_Done \<or>
     (consumer s = C_Deq \<and> buf (frameQueue s) = [] \<and> \<not> finished (frameQueue s)) \<or>
     (\<exists>f d. consumer s = C_Enq f d \<and>
          length (buf (processedQueue s)) = max_size (processedQueue s) \<and>
          \<not> finished (processedQueue s))"
  by (cases "consumer s")
     (auto simp: consumer_step_def enqueue_def dequeue_def split: list.splits sum.splits)

lemma display_blocked:
  "display_step s = None \<longleftrightarrow>
     displayThread s = D_Done \<or>
     (displayThread s = D_Deq \<and> buf (processedQueue s) = [] \<and>
      \<not> finished (processedQueue s))"
  by (cases "displayThread s")
     (auto simp: display_step_def dequeue_def split: list.splits)

lemma no_deadlock:
  assumes "shutdown_consistent s" and "queues_bounded s" and "\<not> final s"
  shows "\<exists>t. step detect t s \<noteq> None"
proof (rule ccontr)
  assume "\<not> (\<exists>t. step detect t s \<noteq> None)"
  then have all: "step detect Producer s = None" "step detect Consumer s = None"
    "step detect Display s = None"
    by auto
  from assms(3) have nt: "\<not> terminate_called s" and nj: "\<not> all_joined s"
    by (auto simp: final_def)
  from all nt have p: "producer_step s = None" and c: "consumer_step detect s = None"
    and d: "display_step s = None"
    by (simp_all add: step_def)
  from assms(2) have cap2: "max_size (frameQueue s) = 2" "max_size (processedQueue s) = 2"
    by (simp_all add: queues_bounded_def max_queue_size_def)
  from p c d nj assms(1) cap2 show False
    unfolding producer_blocked consumer_blocked display_blocked all_joined_def
      shutdown_consistent_def
    by auto
qed

lemma final_no_step: "final s \<Longrightarrow> step detect t s = None"
  by (cases t)
     (auto simp: final_def all_joined_def step_def producer_step_def consumer_step_def
        display_step_def)

lemma final_run: "final s \<Longrightarrow> run detect sched s = s"
  by (induction sched) (simp_all add: final_no_step)

lemma terminate_called_run: "terminate_called s \<Longrightarrow> run detect sched s = s"
  by (simp add: final_run final_def)

lemma round_decreases:
  assumes "shutdown_consistent s" and "queues_bounded s" and "\<not> final s"
  shows "potential (run detect [Producer, Consumer, Display] s) < potential s"
proof -
  from no_deadlock[OF assms] obtain t where t: "step detect t s \<noteq> None" ..
  show ?thesis
  proof (cases "step detect Producer s")
    case (Some s1)
    from step_potential[OF Some] run_potential[of detect "[Consumer, Display]" s1] Some
    show ?thesis by simp
  next
    case pn: None
    show ?thesis
    proof (cases "step detect Consumer s")
      case (Some s1)
      from step_potential[OF Some] run_potential[of detect "[Display]" s1] Some pn
      show ?thesis by simp
    next
      case cn: None
      from t pn cn obtain s1 where d: "step detect Display s = Some s1"
        by (cases t) auto
      from step_potential[OF d] d pn cn show ?thesis by simp
    qed
  qed
qed

lemma round_robin_Suc:
  "round_robin (Suc n) = [Producer, Consumer, Display] @ round_robin n"
  by (simp add: round_robin_def)

lemma round_robin_final:
  assumes "shutdown_consistent s" and "queues_bounded s" and "potential s \<le> n"
  shows "final (run detect (round_robin n) s)"
  using assms
proof (induction n arbitrary: s)
  case 0
  then have "terminate_called s" by (simp add: potential_def split: if_splits)
  then show ?case by (simp add: final_def round_robin_def)
next
  case (Suc n)
  show ?case
  proof (cases "final s")
    case True
    then show ?thesis by (simp add: final_run)
  next
    case False
    let ?s1 = "run detect [Producer, Consumer, Display] s"
    from round_decreases[OF Suc.prems(1,2) False, of detect] Suc.prems(3)
    have less: "potential ?s1 \<le> n" by simp
    have "shutdown_consistent ?s1" by (rule run_consistent[OF Suc.prems(1)])
    moreover have "queues_bounded ?s1" by (rule run_bounded[OF Suc.prems(2)])
    ultimately have "final (run detect (round_robin n) ?s1)" using less by (rule Suc.IH)
    then show ?thesis by (simp only: round_robin_Suc run_append)
  qed
qed

lemma potential_init: "potential (init frames ks) = 9 * length frames + 9"
  by (simp add: potential_def upstream_A_def upstream_B_def init_def new_queue_def)

lemma round_robin_ends:
  "final (run detect (round_robin (9 * length frames + 9)) (init frames ks))"
  by (rule round_robin_final[OF init_shutdown_consistent init_bounded])
     (simp add: potential_init)

subsection \<open>The quit branch of the display loop\<close>

lemma producer_step_quit:
  assumes "producer_step s = Some s'" and "quit_in_progress s"
  shows "quit_in_progress s' \<and> quit_steps_left s' = quit_steps_left s"
  using assms
  by (cases rule: producer_step_cases)
     (auto simp: quit_in_progress_def quit_steps_left_def split: dpc.splits)

lemma consumer_step_quit:
  assumes "consumer_step detect s = Some s'" and "quit_in_progress s"
  shows "quit_in_progress s' \<and> quit_steps_left s' = quit_steps_left s"
  using assms
  by (cases rule: consumer_step_cases)
     (auto simp: quit_in_progress_def quit_steps_left_def split: dpc.splits)

lemma display_step_quit:
  assumes "display_step s = Some s'" and "quit_in_progress s"
  shows "quit_in_progress s' \<and> quit_steps_left s' = quit_steps_left s - 1"
  using assms
  by (cases rule: display_step_cases)
     (auto simp: quit_in_progress_def quit_steps_left_def split: dpc.splits)

lemma display_quit_enabled:
  assumes "quit_in_progress s" and "0 < quit_steps_left s"
  shows "display_step s \<noteq> None"
  using assms
  by (auto simp: display_blocked quit_in_progress_def quit_steps_left_def split: dpc.splits)

lemma run_quit:
  assumes "quit_in_progress s"
  shows "quit_in_progress (run detect sched s) \<and>
     (\<not> terminate_called (run detect sched s) \<longrightarrow>
        quit_steps_left (run detect sched s) = quit_steps_left s - count_list sched Display)"
  using assms
proof (induction sched arbitrary: s)
  case Nil
  then show ?case by simp
next
  case (Cons t ts)
  show ?case
  proof (cases "terminate_called s")
    case True
    then have "run detect (t # ts) s = s" by (rule terminate_called_run)
    with Cons.prems True show ?thesis by (simp del: run.simps)
  next
    case nt: False
    show ?thesis
    proof (cases t)
      case Producer
      show ?thesis
      proof (cases "producer_step s")
        case None
        with Cons.IH[OF Cons.prems] Producer nt show ?thesis by (simp add: step_def)
      next
        case (Some s1)
        from producer_step_quit[OF Some Cons.prems] Cons.IH[of s1] Some Producer nt
        show ?thesis by (simp add: step_def)
      qed
    next
      case Consumer
      show ?thesis
      proof (cases "consumer_step detect s")
        case None
        with Cons.IH[OF Cons.prems] Consumer nt show ?thesis by (simp add: step_def)
      next
        case (Some s1)
        from consumer_step_quit[OF Some Cons.prems] Cons.IH[of s1] Some Consumer nt
        show ?thesis by (simp add: step_def)
      qed
    next
      case Display
      show ?thesis
      proof (cases "display_step s")
        case None
        with display_quit_enabled[OF Cons.prems] have "quit_steps_left s = 0" by auto
        with Cons.IH[OF Cons.prems] None Display nt show ?thesis by (simp add: step_def)
      next
        case (Some s1)
        from display_step_quit[OF Some Cons.prems] Cons.IH[of s1] Some Display nt
        show ?thesis by (simp add: step_def)
      qed
    qed
  qed
qed

text \<open>
  Claim C1. Let the display loop hold a frame and let \<^verbatim>\<open>waitKey\<close> return \<^verbatim>\<open>'q'\<close> for it.
  Under every schedule of the three threads: when the display loop has ended, \<^verbatim>\<open>stopFlag\<close>
  is true, both \<^verbatim>\<open>frameQueue\<close> and \<^verbatim>\<open>processedQueue\<close> are finished, and the display
  thread itself has called \<^verbatim>\<open>set_finished\<close> on each of them; and it does end
  once the display thread has been scheduled four times (it never waits on the way),
  unless the process was terminated meanwhile. In every state in which \<^verbatim>\<open>frameQueue\<close> is
  finished, a producer inside \<^verbatim>\<open>frameQueue.enqueue\<close> can take its step: the call returns
  \<^verbatim>\<open>false\<close> and it goes on to the end of its thread function; the same holds for the
  consumer inside \<^verbatim>\<open>processedQueue.enqueue\<close>.
\<close>

theorem quit_marks_both_queues_finished:
  assumes "displayThread s = D_Show f d" and "keys s = True # ks"
  shows
    "(displayThread (run detect sched s) = D_Done \<longrightarrow>
        stopFlag (run detect sched s) \<and>
        finished (frameQueue (run detect sched s)) \<and>
        finished (processedQueue (run detect sched s)) \<and>
        FinA Display \<in> set (history (run detect sched s)) \<and>
        FinB Display \<in> set (history (run detect sched s))) \<and>
     (\<not> terminate_called (run detect sched s) \<and> 4 \<le> count_list sched Display \<longrightarrow>
        displayThread (run detect sched s) = D_Done) \<and>
     (\<forall>s' g. finished (frameQueue s') \<and> producer s' = P_Enq g \<and> \<not> terminate_called s' \<longrightarrow>
        step detect Producer s' =
          Some (s'\<lparr>producer := P_Finish, history := history s' @ [EnqA g False]\<rparr>)) \<and>
     (\<forall>s' g e. finished (processedQueue s') \<and> consumer s' = C_Enq g e \<and>
          \<not> terminate_called s' \<longrightarrow>
        step detect Consumer s' =
          Some (s'\<lparr>consumer := C_Finish, history := history s' @ [EnqB g e False]\<rparr>))"
proof -
  let ?s = "run detect sched s"
  from assms have q: "quit_in_progress s" and four: "quit_steps_left s = 4"
    by (simp_all add: quit_in_progress_def quit_steps_left_def)
  from run_quit[OF q, of detect sched] four
  have q': "quit_in_progress ?s"
    and left: "\<not> terminate_called ?s \<longrightarrow> quit_steps_left ?s = 4 - count_list sched Display"
    by simp_all
  from q' have "displayThread ?s = D_Done \<longrightarrow>
      stopFlag ?s \<and> finished (frameQueue ?s) \<and> finished (processedQueue ?s) \<and>
      FinA Display \<in> set (history ?s) \<and> FinB Display \<in> set (history ?s)"
    by (auto simp: quit_in_progress_def)
  moreover from q' left
  have "\<not> terminate_called ?s \<and> 4 \<le> count_list sched Display \<longrightarrow> displayThread ?s = D_Done"
    by (auto simp: quit_in_progress_def quit_steps_left_def split: dpc.splits)
  moreover have "\<forall>s' g. finished (frameQueue s') \<and> producer s' = P_Enq g \<and>
        \<not> terminate_called s' \<longrightarrow>
      step detect Producer s' =
        Some (s'\<lparr>producer := P_Finish, history := history s' @ [EnqA g False]\<rparr>)"
    by (simp add: step_def producer_step_def enqueue_def)
  moreover have "\<forall>s' g e. finished (processedQueue s') \<and> consumer s' = C_Enq g e \<and>
        \<not> terminate_called s' \<longrightarrow>
      step detect Consumer s' =
        Some (s'\<lparr>consumer := C_Finish, history := history s' @ [EnqB g e False]\<rparr>)"
    by (simp add: step_def consumer_step_def enqueue_def)
  ultimately show ?thesis by (intro conjI)
qed

text \<open>
  Claim C1 on a run with seven frames: both queues are full, the producer waits in
  \<^verbatim>\<open>enqueue\<close> with frame 6, the display loop shows frame 1 and reads \<^verbatim>\<open>'q'\<close>. Four steps
  of the display thread later the flag is set and both queues are finished, and the
  producer's call returns.
\<close>

theorem quit_marks_both_queues_finished_witness:
  "displayThread (run detect_all until_quit_key (init [1, 2, 3, 4, 5, 6, 7] [True])) =
     D_Show 1 10 \<and>
   keys (run detect_all until_quit_key (init [1, 2, 3, 4, 5, 6, 7] [True])) = [True] \<and>
   producer (run detect_all until_quit_key (init [1, 2, 3, 4, 5, 6, 7] [True])) = P_Enq 6 \<and>
   step detect_all Producer
     (run detect_all until_quit_key (init [1, 2, 3, 4, 5, 6, 7] [True])) = None \<and>
   displayThread (run detect_all [Display, Display, Display, Display]
     (run detect_all until_quit_key (init [1, 2, 3, 4, 5, 6, 7] [True]))) = D_Done \<and>
   stopFlag (run detect_all [Display, Display, Display, Display]
     (run detect_all until_quit_key (init [1, 2, 3, 4, 5, 6, 7] [True]))) \<and>
   finished (frameQueue (run detect_all [Display, Display, Display, Display]
     (run detect_all until_quit_key (init [1, 2, 3, 4, 5, 6, 7] [True])))) \<and>
   finished (processedQueue (run detect_all [Display, Display, Display, Display]
     (run detect_all until_quit_key (init [1, 2, 3, 4, 5, 6, 7] [True])))) \<and>
   FinB Display \<in> set (history (run detect_all [Display, Display, Display, Display]
     (run detect_all until_quit_key (init [1, 2, 3, 4, 5, 6, 7] [True])))) \<and>
   producer (run detect_all [Display, Display, Display, Display, Producer]
     (run detect_all until_quit_key (init [1, 2, 3, 4, 5, 6, 7] [True]))) = P_Finish"
proof -
  let ?s = "run detect_all until_quit_key (init [1, 2, 3, 4, 5, 6, 7] [True])"
  let ?q = "[Display, Display, Display, Display]"
  have a: "displayThread ?s = D_Show 1 10" by code_simp
  have b: "keys ?s = [True]" by code_simp
  have c: "producer ?s = P_Enq 6" by code_simp
  have d: "step detect_all Producer ?s = None" by code_simp
  have e: "\<not> terminate_called (run detect_all ?q ?s)" by code_simp
  have f: "4 \<le> count_list ?q Display" by simp
  have g: "producer (run detect_all [Display, Display, Display, Display, Producer] ?s) =
      P_Finish"
    by code_simp
  have h: "displayThread (run detect_all ?q ?s) = D_Done"
    using quit_marks_both_queues_finished[OF a b, of detect_all ?q,
        THEN conjunct2, THEN conjunct1] e f
    by (simp del: run.simps)
  note m = quit_marks_both_queues_finished[OF a b, of detect_all ?q,
      THEN conjunct1, THEN mp, OF h]
  from m have 1: "stopFlag (run detect_all ?q ?s)" by (elim conjE)
  from m have 2: "finished (frameQueue (run detect_all ?q ?s))" by (elim conjE)
  from m have 3: "finished (processedQueue (run detect_all ?q ?s))" by (elim conjE)
  from m have 4: "FinB Display \<in> set (history (run detect_all ?q ?s))" by (elim conjE)
  from a b c d h 1 2 3 4 g show ?thesis by (intro conjI)
qed

subsection \<open>The producer thread\<close>

text \<open>
  Claim C6. In every state \<open>s\<close> a run reaches from the start of the pipeline:
  the producer has called \<^verbatim>\<open>frameQueue.set_finished()\<close> once when it has returned and
  not at all before; it has left its loop only if the flag is set, the camera has no frame
  left, or an \<^verbatim>\<open>enqueue\<close> returned \<^verbatim>\<open>false\<close>; at the head of the loop it leaves when the
  flag is set or the read fails and otherwise goes on to \<^verbatim>\<open>enqueue\<close> the frame read;
  an \<^verbatim>\<open>enqueue\<close> that returns either buffered the frame and the loop continues, or the
  queue was finished, the buffer is unchanged and the loop is left; after the loop comes
  \<^verbatim>\<open>set_finished\<close> and then nothing. Once the producer has returned, \<^verbatim>\<open>frameQueue\<close> is
  finished, a \<^verbatim>\<open>dequeue\<close> on it does not wait, and it returns closed as soon as the
  buffer is empty. No reachable state is a deadlock: as long as the process has not ended
  some thread can take a step; and the round-robin schedule of \<open>9 * N + 9\<close> rounds ends
  the process, for \<open>N\<close> frames.
\<close>

theorem capture_marks_queue_finished_once:
  assumes "s = run detect sched (init frames ks)"
  shows
    "count_list (history s) (FinA Producer) = (if producer s = P_Done then 1 else 0) \<and>
     (producer s = P_Finish \<or> producer s = P_Done \<longrightarrow>
        stopFlag s \<or> cap s = [] \<or> (\<exists>f. EnqA f False \<in> set (history s))) \<and>
     (producer s = P_Head \<longrightarrow>
        producer_step s =
          Some (if stopFlag s \<or> cap s = [] then s\<lparr>producer := P_Finish\<rparr>
                else s\<lparr>cap := tl (cap s), producer := P_Enq (hd (cap s))\<rparr>)) \<and>
     (\<forall>f s'. producer s = P_Enq f \<and> producer_step s = Some s' \<longrightarrow>
        (if finished (frameQueue s)
         then producer s' = P_Finish \<and> buf (frameQueue s') = buf (frameQueue s)
         else producer s' = P_Head \<and> buf (frameQueue s') = buf (frameQueue s) @ [f])) \<and>
     (producer s = P_Finish \<longrightarrow>
        producer_step s =
          Some (s\<lparr>frameQueue := set_finished (frameQueue s), producer := P_Done,
                  history := history s @ [FinA Producer]\<rparr>)) \<and>
     (producer s = P_Done \<longrightarrow>
        producer_step s = None \<and> finished (frameQueue s) \<and>
        dequeue (frameQueue s) \<noteq> Blocks \<and>
        (buf (frameQueue s) = [] \<longrightarrow>
           dequeue (frameQueue s) = Returns (None, frameQueue s))) \<and>
     (\<not> final s \<longrightarrow> (\<exists>t. step detect t s \<noteq> None)) \<and>
     final (run detect (round_robin (9 * length frames + 9)) (init frames ks))"
proof -
  have acc: "producer_exit_accounted s"
    unfolding assms by (rule run_exit_accounted[OF init_exit_accounted])
  have cons: "shutdown_consistent s"
    unfolding assms by (rule run_consistent[OF init_shutdown_consistent])
  have bnd: "queues_bounded s"
    unfolding assms by (rule run_bounded[OF init_bounded])
  from acc have 1:
    "count_list (history s) (FinA Producer) = (if producer s = P_Done then 1 else 0)"
    and 2: "producer s = P_Finish \<or> producer s = P_Done \<longrightarrow>
        stopFlag s \<or> cap s = [] \<or> (\<exists>f. EnqA f False \<in> set (history s))"
    unfolding producer_exit_accounted_def by blast+
  have 3: "producer s = P_Head \<longrightarrow>
        producer_step s =
          Some (if stopFlag s \<or> cap s = [] then s\<lparr>producer := P_Finish\<rparr>
                else s\<lparr>cap := tl (cap s), producer := P_Enq (hd (cap s))\<rparr>)"
    by (cases "cap s") (simp_all add: producer_step_def)
  have 4: "\<forall>f s'. producer s = P_Enq f \<and> producer_step s = Some s' \<longrightarrow>
        (if finished (frameQueue s)
         then producer s' = P_Finish \<and> buf (frameQueue s') = buf (frameQueue s)
         else producer s' = P_Head \<and> buf (frameQueue s') = buf (frameQueue s) @ [f])"
  proof (intro allI impI, elim conjE)
    fix f s'
    assume pc: "producer s = P_Enq f" and st: "producer_step s = Some s'"
    from st pc show "if finished (frameQueue s)
         then producer s' = P_Finish \<and> buf (frameQueue s') = buf (frameQueue s)
         else producer s' = P_Head \<and> buf (frameQueue s') = buf (frameQueue s) @ [f]"
      by (cases rule: producer_step_cases) simp_all
  qed
  have 5: "producer s = P_Finish \<longrightarrow>
        producer_step s =
          Some (s\<lparr>frameQueue := set_finished (frameQueue s), producer := P_Done,
                  history := history s @ [FinA Producer]\<rparr>)"
    by (simp add: producer_step_def)
  have 6: "producer s = P_Done \<longrightarrow>
        producer_step s = None \<and> finished (frameQueue s) \<and>
        dequeue (frameQueue s) \<noteq> Blocks \<and>
        (buf (frameQueue s) = [] \<longrightarrow>
           dequeue (frameQueue s) = Returns (None, frameQueue s))"
    using cons
    by (auto simp: shutdown_consistent_def producer_step_def dequeue_def split: list.splits)
  have 7: "\<not> final s \<longrightarrow> (\<exists>t. step detect t s \<noteq> None)"
    using no_deadlock[OF cons bnd] by blast
  have 8: "final (run detect (round_robin (9 * length frames + 9)) (init frames ks))"
    by (rule round_robin_ends)
  show ?thesis by (intro conjI) (fact 1 2 3 4 5 6 7 8)+
qed

text \<open>
  Claim C6 on a run with two frames: after eleven rounds the producer has returned and
  called \<^verbatim>\<open>set_finished\<close> once, the queue is finished and empty and \<^verbatim>\<open>dequeue\<close> returns
  closed; after two rounds, inside the loop, it has not called it.
\<close>

theorem capture_marks_queue_finished_once_witness:
  "count_list (history (run detect_all (round_robin 11) (init [1, 2] []))) (FinA Producer) = 1 \<and>
   producer (run detect_all (round_robin 11) (init [1, 2] [])) = P_Done \<and>
   finished (frameQueue (run detect_all (round_robin 11) (init [1, 2] []))) \<and>
   dequeue (frameQueue (run detect_all (round_robin 11) (init [1, 2] []))) =
     Returns (None, frameQueue (run detect_all (round_robin 11) (init [1, 2] []))) \<and>
   count_list (history (run detect_all (round_robin 2) (init [1, 2] []))) (FinA Producer) = 0"
proof -
  let ?s = "run detect_all (round_robin 11) (init [1, 2] [])"
  let ?t = "run detect_all (round_robin 2) (init [1, 2] [])"
  have d: "producer ?s = P_Done" by code_simp
  have e: "buf (frameQueue ?s) = []" by code_simp
  have n: "producer ?t \<noteq> P_Done" by code_simp
  note s = capture_marks_queue_finished_once
    [OF refl, of detect_all "round_robin 11" "[1, 2]" "[]"]
  note t = capture_marks_queue_finished_once
    [OF refl, of detect_all "round_robin 2" "[1, 2]" "[]"]
  from s[THEN conjunct1] d have 1: "count_list (history ?s) (FinA Producer) = 1"
    by simp
  note s6 = s[THEN conjunct2, THEN conjunct2, THEN conjunct2, THEN conjunct2,
    THEN conjunct2, THEN conjunct1, rule_format, OF d]
  from s6 have 2: "finished (frameQueue ?s)" by (elim conjE)
  from s6 e have 3: "dequeue (frameQueue ?s) = Returns (None, frameQueue ?s)"
    by (elim conjE) simp
  from t[THEN conjunct1] n have 5: "count_list (history ?t) (FinA Producer) = 0"
    by simp
  from 1 d 2 3 5 show ?thesis by (intro conjI)
qed

subsection \<open>The history of the queues\<close>

lemma map_filter_snoc:
  "List.map_filter g (xs @ [x]) =
     List.map_filter g xs @ (case g x of None \<Rightarrow> [] | Some y \<Rightarrow> [y])"
  by (simp add: List.map_filter_def split: option.splits)

lemma history_snoc [simp]:
  "accepted_A (h @ [e]) = accepted_A h @ (case e of EnqA f True \<Rightarrow> [f] | _ \<Rightarrow> [])"
  "received_A (h @ [e]) = received_A h @ (case e of DeqA (Some f) \<Rightarrow> [f] | _ \<Rightarrow> [])"
  "accepted_B (h @ [e]) = accepted_B h @ (case e of EnqB f d True \<Rightarrow> [(f, d)] | _ \<Rightarrow> [])"
  "received_B (h @ [e]) = received_B h @ (case e of DeqB (Some x) \<Rightarrow> [x] | _ \<Rightarrow> [])"
  "displayed (h @ [e]) = displayed h @ (case e of Imshow f d \<Rightarrow> [(f, d)] | _ \<Rightarrow> [])"
  by (simp_all add: accepted_A_def received_A_def accepted_B_def received_B_def
        displayed_def map_filter_snoc split: event.splits bool.splits option.splits)

lemma history_Nil [simp]:
  "accepted_A [] = []" "received_A [] = []" "accepted_B [] = []" "received_B [] = []"
  "displayed [] = []"
  by (simp_all add: accepted_A_def received_A_def accepted_B_def received_B_def
        displayed_def List.map_filter_def)

lemma init_fifo: "fifo_consistent frames detect (init frames ks)"
  by (simp add: fifo_consistent_def init_def new_queue_def hand_P_def hand_C_def hand_D_def)

lemma accepted_A_known:
  assumes "fifo_consistent frames detect s"
  shows "set (accepted_A (history s)) \<subseteq> set frames"
proof -
  from assms have alt:
    "if producer s = P_Finish \<or> producer s = P_Done
     then prefix (accepted_A (history s)) frames
     else frames = accepted_A (history s) @ hand_P s @ cap s"
    unfolding fifo_consistent_def by blast
  show ?thesis
  proof (cases "producer s = P_Finish \<or> producer s = P_Done")
    case True
    with alt have "prefix (accepted_A (history s)) frames" by simp
    then show ?thesis by (rule set_mono_prefix)
  next
    case False
    with alt have "frames = accepted_A (history s) @ hand_P s @ cap s" by simp
    then have "set frames = set (accepted_A (history s)) \<union> set (hand_P s @ cap s)"
      by (metis set_append)
    then show ?thesis by blast
  qed
qed

lemma detect_frame_known:
  assumes "fifo_consistent frames detect s" and "consumer s = C_Detect f"
  shows "f \<in> set frames"
proof -
  from assms have "f \<in> set (received_A (history s))"
    by (simp add: fifo_consistent_def hand_C_def)
  with assms(1) have "f \<in> set (accepted_A (history s))"
    by (simp add: fifo_consistent_def)
  with accepted_A_known[OF assms(1)] show ?thesis by blast
qed

lemma producer_step_fifo:
  assumes "producer_step s = Some s'" and "fifo_consistent frames detect s"
  shows "fifo_consistent frames detect s'"
  using assms
  by (cases rule: producer_step_cases)
     (auto simp: fifo_consistent_def hand_P_def hand_C_def hand_D_def)

lemma consumer_step_fifo:
  assumes "consumer_step detect s = Some s'" and "fifo_consistent frames detect s"
  shows "fifo_consistent frames detect s'"
  using assms
  by (cases rule: consumer_step_cases)
     (auto simp: fifo_consistent_def hand_P_def hand_C_def hand_D_def)

lemma display_step_fifo:
  assumes "display_step s = Some s'" and "fifo_consistent frames detect s"
  shows "fifo_consistent frames detect s'"
  using assms
  by (cases rule: display_step_cases)
     (auto simp: fifo_consistent_def hand_P_def hand_C_def hand_D_def)

lemma step_fifo:
  assumes "step detect t s = Some s'" and "fifo_consistent frames detect s"
  shows "fifo_consistent frames detect s'"
  using assms
  by (cases rule: step_cases)
     (auto dest: producer_step_fifo consumer_step_fifo display_step_fifo)

lemma run_fifo:
  "fifo_consistent frames detect s \<Longrightarrow> fifo_consistent frames detect (run detect sched s)"
  by (induction sched arbitrary: s) (auto split: option.splits dest: step_fifo)

lemma step_terminate_reason:
  assumes "step detect t s = Some s'" and "fifo_consistent frames detect s"
    and "terminate_called s'"
  shows "\<exists>f e. f \<in> set frames \<and> detect f = Inl e"
  using assms(1)
proof (cases rule: step_cases)
  case Producer
  from Producer(3) Producer(2) assms(3) show ?thesis
    by (cases rule: producer_step_cases) auto
next
  case Consumer
  from Consumer(3) show ?thesis
  proof (cases rule: consumer_step_cases)
    case (Detect_throws f e)
    with detect_frame_known[OF assms(2)] show ?thesis by blast
  qed (use Consumer(2) assms(3) in auto)
next
  case Display
  from Display(3) Display(2) assms(3) show ?thesis
    by (cases rule: display_step_cases) auto
qed

lemma run_terminate_reason:
  assumes "fifo_consistent frames detect s" and "\<not> terminate_called s"
    and "terminate_called (run detect sched s)"
  shows "\<exists>f e. f \<in> set frames \<and> detect f = Inl e"
  using assms
proof (induction sched arbitrary: s)
  case Nil
  then show ?case by simp
next
  case (Cons t ts)
  show ?case
  proof (cases "step detect t s")
    case None
    with Cons show ?thesis by simp
  next
    case (Some s1)
    show ?thesis
    proof (cases "terminate_called s1")
      case True
      with step_terminate_reason[OF Some Cons.prems(1)] show ?thesis by simp
    next
      case False
      with Cons.IH[OF step_fifo[OF Some Cons.prems(1)]] Cons.prems(3) Some
      show ?thesis by simp
    qed
  qed
qed

lemma init_not_terminated: "\<not> terminate_called (init frames ks)"
  by (simp add: init_def)

subsection \<open>Runs without a quit request\<close>

lemma init_undisturbed: "undisturbed frames (init frames ks)"
  by (simp add: undisturbed_def init_def new_queue_def)

lemma producer_step_undisturbed:
  assumes "producer_step s = Some s'" and "fifo_consistent frames detect s"
    and "undisturbed frames s"
  shows "undisturbed frames s'"
  using assms(1)
proof (cases rule: producer_step_cases)
  case Head_eof
  from assms(2) Head_eof(1) have "frames = accepted_A (history s) @ hand_P s @ cap s"
    unfolding fifo_consistent_def by auto
  with Head_eof have "frames = accepted_A (history s)" by (simp add: hand_P_def)
  with Head_eof assms(3) show ?thesis by (auto simp: undisturbed_def)
qed (use assms(3) in \<open>auto simp: undisturbed_def\<close>)

lemma consumer_step_undisturbed:
  assumes "consumer_step detect s = Some s'" and "fifo_consistent frames detect s"
    and "undisturbed frames s"
  shows "undisturbed frames s'"
  using assms(1)
proof (cases rule: consumer_step_cases)
  case Deq_closed
  from assms(2) Deq_closed(1)
  have "received_A (history s) = map fst (accepted_B (history s)) @ hand_C s"
    unfolding fifo_consistent_def by auto
  with Deq_closed have "received_A (history s) = map fst (accepted_B (history s))"
    by (simp add: hand_C_def)
  with Deq_closed assms(3) show ?thesis by (auto simp: undisturbed_def)
qed (use assms(3) in \<open>auto simp: undisturbed_def\<close>)

lemma display_step_undisturbed:
  assumes "display_step s = Some s'" and "shutdown_consistent s"
    and "undisturbed frames s"
  shows "undisturbed frames s'"
  using assms(1)
proof (cases rule: display_step_cases)
  case Quit_A
  with assms(2) have "stopFlag s'" by (simp add: shutdown_consistent_def)
  then show ?thesis by (simp add: undisturbed_def)
next
  case Quit_B
  with assms(2) have "stopFlag s'" by (simp add: shutdown_consistent_def)
  then show ?thesis by (simp add: undisturbed_def)
qed (use assms(3) in \<open>auto simp: undisturbed_def\<close>)

lemma step_undisturbed:
  assumes "step detect t s = Some s'" and "fifo_consistent frames detect s"
    and "shutdown_consistent s" and "undisturbed frames s"
  shows "undisturbed frames s'"
  using assms(1)
proof (cases rule: step_cases)
  case Producer
  then show ?thesis using assms(2,4) by (auto dest: producer_step_undisturbed)
next
  case Consumer
  then show ?thesis using assms(2,4) by (auto dest: consumer_step_undisturbed)
next
  case Display
  then show ?thesis using assms(3,4) by (auto dest: display_step_undisturbed)
qed

lemma run_undisturbed:
  assumes "fifo_consistent frames detect s" and "shutdown_consistent s"
    and "undisturbed frames s"
  shows "undisturbed frames (run detect sched s)"
  using assms
proof (induction sched arbitrary: s)
  case Nil
  then show ?case by simp
next
  case (Cons t ts)
  show ?case
  proof (cases "step detect t s")
    case None
    with Cons show ?thesis by simp
  next
    case (Some s1)
    from Cons.IH[OF step_fifo[OF Some Cons.prems(1)] step_consistent[OF Some Cons.prems(2)]
        step_undisturbed[OF Some Cons.prems]] Some
    show ?thesis by simp
  qed
qed

lemma init_never_quit: "True \<notin> set ks \<Longrightarrow> never_quit (init frames ks)"
  by (simp add: never_quit_def init_def)

lemma step_never_quit:
  assumes "step detect t s = Some s'" and "never_quit s"
  shows "never_quit s'"
  using assms(1)
proof (cases rule: step_cases)
  case Producer
  from Producer(3) assms(2) show ?thesis
    by (cases rule: producer_step_cases) (auto simp: never_quit_def)
next
  case Consumer
  from Consumer(3) assms(2) show ?thesis
    by (cases rule: consumer_step_cases) (auto simp: never_quit_def)
next
  case Display
  from Display(3) assms(2) show ?thesis
    by (cases rule: display_step_cases) (auto simp: never_quit_def)
qed

lemma run_never_quit: "never_quit s \<Longrightarrow> never_quit (run detect sched s)"
  by (induction sched arbitrary: s) (auto split: option.splits dest: step_never_quit)

lemma step_terminated_in_detect:
  assumes "step detect t s = Some s'"
  shows "terminated_in_detect s'"
  using assms
proof (cases rule: step_cases)
  case Producer
  from Producer(3) Producer(2) show ?thesis
    by (cases rule: producer_step_cases) (auto simp: terminated_in_detect_def)
next
  case Consumer
  from Consumer(3) Consumer(2) show ?thesis
    by (cases rule: consumer_step_cases) (auto simp: terminated_in_detect_def)
next
  case Display
  from Display(3) Display(2) show ?thesis
    by (cases rule: display_step_cases) (auto simp: terminated_in_detect_def)
qed

lemma run_terminated_in_detect:
  "terminated_in_detect s \<Longrightarrow> terminated_in_detect (run detect sched s)"
  by (induction sched arbitrary: s)
     (auto split: option.splits dest: step_terminated_in_detect)

lemma init_terminated_in_detect: "terminated_in_detect (init frames ks)"
  by (simp add: terminated_in_detect_def init_def)

lemma joined_not_terminated:
  assumes "terminated_in_detect s" and "all_joined s"
  shows "\<not> terminate_called s"
  using assms by (auto simp: terminated_in_detect_def all_joined_def)

lemma joined_all_delivered:
  assumes "fifo_consistent frames detect s" and "undisturbed frames s" and "all_joined s"
    and "\<not> stopFlag s" and "\<not> terminate_called s"
  shows "accepted_A (history s) = frames" "received_A (history s) = frames"
    "map fst (accepted_B (history s)) = frames"
    "received_B (history s) = accepted_B (history s)"
    "displayed (history s) = accepted_B (history s)"
    "buf (frameQueue s) = []" "buf (processedQueue s) = []"
proof -
  from assms(3) have pc: "producer s = P_Done" "consumer s = C_Done" "displayThread s = D_Done"
    by (simp_all add: all_joined_def)
  from assms(2,4,5) pc show a: "accepted_A (history s) = frames"
    and ea: "buf (frameQueue s) = []" and eb: "buf (processedQueue s) = []"
    by (simp_all add: undisturbed_def)
  from assms(2,4,5) pc have rb: "received_A (history s) = map fst (accepted_B (history s))"
    by (simp add: undisturbed_def)
  from assms(1) have "accepted_A (history s) = received_A (history s) @ buf (frameQueue s)"
    unfolding fifo_consistent_def by blast
  with a ea show ra: "received_A (history s) = frames" by simp
  with rb show "map fst (accepted_B (history s)) = frames" by simp
  from assms(1)
  have "accepted_B (history s) = received_B (history s) @ buf (processedQueue s)"
    unfolding fifo_consistent_def by blast
  with eb show r: "received_B (history s) = accepted_B (history s)" by simp
  from assms(1) have "received_B (history s) = displayed (history s) @ hand_D s"
    unfolding fifo_consistent_def by blast
  with pc r show "displayed (history s) = accepted_B (history s)"
    by (simp add: hand_D_def)
qed

lemma displayed_prefix:
  assumes "fifo_consistent frames detect s"
  shows "prefix (map fst (displayed (history s))) (accepted_A (history s))"
proof -
  from assms have 1: "accepted_A (history s) = received_A (history s) @ buf (frameQueue s)"
    and 2: "accepted_B (history s) = received_B (history s) @ buf (processedQueue s)"
    and 3: "received_B (history s) = displayed (history s) @ hand_D s"
    and 4: "if consumer s = C_Finish \<or> consumer s = C_Done
      then prefix (map fst (accepted_B (history s))) (received_A (history s))
      else received_A (history s) = map fst (accepted_B (history s)) @ hand_C s"
    unfolding fifo_consistent_def by blast+
  have "prefix (map fst (displayed (history s))) (map fst (accepted_B (history s)))"
    by (simp add: 2 3)
  moreover from 4 have "prefix (map fst (accepted_B (history s))) (received_A (history s))"
    by (auto split: if_splits)
  moreover have "prefix (received_A (history s)) (accepted_A (history s))"
    by (simp add: 1)
  ultimately show ?thesis by (meson prefix_order.trans)
qed

lemma undisturbed_round_robin_joined:
  assumes "True \<notin> set ks" and "\<forall>f \<in> set frames. \<exists>d. detect f = Inr d"
  shows "all_joined (run detect (round_robin (9 * length frames + 9)) (init frames ks))"
    "\<not> stopFlag (run detect sched (init frames ks))"
    "\<not> terminate_called (run detect sched (init frames ks))"
proof -
  show nt: "\<not> terminate_called (run detect sched (init frames ks))" for sched
    using run_terminate_reason[OF init_fifo init_not_terminated, of detect sched frames ks]
      assms(2)
    by fastforce
  from nt round_robin_ends[of detect frames ks]
  show "all_joined (run detect (round_robin (9 * length frames + 9)) (init frames ks))"
    by (simp add: final_def)
  from run_never_quit[OF init_never_quit[OF assms(1)], of detect sched frames]
  show "\<not> stopFlag (run detect sched (init frames ks))"
    by (simp add: never_quit_def)
qed

subsection \<open>A detection that throws\<close>

lemma failing_frame_terminates:
  assumes "True \<notin> set ks" and "g \<in> set frames" and "detect g = Inl e"
  shows "terminate_called (run detect (round_robin (9 * length frames + 9)) (init frames ks))"
proof (rule ccontr)
  let ?s = "run detect (round_robin (9 * length frames + 9)) (init frames ks)"
  assume nt: "\<not> terminate_called ?s"
  from round_robin_ends[of detect frames ks] nt have j: "all_joined ?s"
    by (simp add: final_def)
  have fc: "fifo_consistent frames detect ?s" by (rule run_fifo[OF init_fifo])
  have u: "undisturbed frames ?s"
    by (rule run_undisturbed[OF init_fifo init_shutdown_consistent init_undisturbed])
  from run_never_quit[OF init_never_quit[OF assms(1)], of detect _ frames]
  have nq: "\<not> stopFlag ?s" by (simp add: never_quit_def)
  from joined_all_delivered(3)[OF fc u j nq nt]
  have "map fst (accepted_B (history ?s)) = frames" .
  with assms(2) obtain x where x: "x \<in> set (accepted_B (history ?s))" and "fst x = g"
    by (metis (no_types, lifting) imageE list.set_map)
  moreover from fc have "\<forall>x \<in> set (accepted_B (history ?s)). detect (fst x) = Inr (snd x)"
    unfolding fifo_consistent_def by blast
  ultimately have "detect g = Inr (snd x)" by auto
  with assms(3) show False by simp
qed

text \<open>
  Claim C2, as the code has it. Let the consumer be about to call \<^verbatim>\<open>detector.detect\<close> on
  a frame \<open>f\<close> on which the call throws, in a process that has not been terminated.
  Nothing catches the exception: the step of the consumer calls \<^verbatim>\<open>std::terminate\<close> and
  changes nothing else, and no thread takes a step afterwards. So under every schedule that
  starts with this step the history is the one before the call (nothing is recorded, and
  nothing is put into \<^verbatim>\<open>processedQueue\<close> for \<open>f\<close>), the consumer never leaves the call, and
  the three threads never all return. When the state was reached by a run from the start of
  the pipeline, \<open>f\<close> is a frame of the camera, and \<^verbatim>\<open>main\<close>, continued with the step of
  the consumer and any schedule, does not return an exit code. When \<^verbatim>\<open>'q'\<close> is never
  pressed and \<open>f\<close> is among the \<open>N\<close> frames of the camera, the round-robin schedule of
  \<open>9 * N + 9\<close> rounds ends with the process terminated. Conversely, a run from the start
  is terminated only if \<^verbatim>\<open>detect\<close> throws on one of the frames of the camera.
\<close>

theorem detect_error_terminates_process:
  assumes "consumer s = C_Detect f" and "\<not> terminate_called s" and "detect f = Inl e"
  shows
    "step detect Consumer s = Some (s\<lparr>terminate_called := True\<rparr>) \<and>
     (\<forall>t. step detect t (s\<lparr>terminate_called := True\<rparr>) = None) \<and>
     (\<forall>sched.
        run detect (Consumer # sched) s = s\<lparr>terminate_called := True\<rparr> \<and>
        history (run detect (Consumer # sched) s) = history s \<and>
        processedQueue (run detect (Consumer # sched) s) = processedQueue s \<and>
        consumer (run detect (Consumer # sched) s) = C_Detect f \<and>
        \<not> all_joined (run detect (Consumer # sched) s)) \<and>
     (\<forall>frames ks sched sched'. s = run detect sched (init frames ks) \<longrightarrow>
        f \<in> set frames \<and>
        run detect (sched @ Consumer # sched') (init frames ks) =
          s\<lparr>terminate_called := True\<rparr> \<and>
        fst (camera_inference_main True detect (sched @ Consumer # sched') frames ks) =
          Terminate_called) \<and>
     (\<forall>frames ks. f \<in> set frames \<and> True \<notin> set ks \<longrightarrow>
        fst (camera_inference_main True detect (round_robin (9 * length frames + 9))
               frames ks) = Terminate_called) \<and>
     (\<forall>frames ks sched. terminate_called (run detect sched (init frames ks)) \<longrightarrow>
        (\<exists>g e'. g \<in> set frames \<and> detect g = Inl e') \<and>
        fst (camera_inference_main True detect sched frames ks) = Terminate_called)"
proof -
  let ?t = "s\<lparr>terminate_called := True\<rparr>"
  have 1: "step detect Consumer s = Some ?t"
    using assms by (simp add: step_def consumer_step_def)
  have 2: "\<forall>t. step detect t ?t = None"
    by (simp add: step_def)
  have r: "run detect (Consumer # sched) s = ?t" for sched
    using 1 by (simp add: terminate_called_run)
  have 3: "\<forall>sched.
        run detect (Consumer # sched) s = ?t \<and>
        history (run detect (Consumer # sched) s) = history s \<and>
        processedQueue (run detect (Consumer # sched) s) = processedQueue s \<and>
        consumer (run detect (Consumer # sched) s) = C_Detect f \<and>
        \<not> all_joined (run detect (Consumer # sched) s)"
    using assms(1) by (simp only: r) (simp add: all_joined_def)
  have 4: "\<forall>frames ks sched sched'. s = run detect sched (init frames ks) \<longrightarrow>
        f \<in> set frames \<and>
        run detect (sched @ Consumer # sched') (init frames ks) = ?t \<and>
        fst (camera_inference_main True detect (sched @ Consumer # sched') frames ks) =
          Terminate_called"
  proof (intro allI impI)
    fix frames ks sched sched'
    assume s: "s = run detect sched (init frames ks)"
    have "fifo_consistent frames detect s"
      unfolding s by (rule run_fifo[OF init_fifo])
    from detect_frame_known[OF this assms(1)] have a: "f \<in> set frames" .
    have b: "run detect (sched @ Consumer # sched') (init frames ks) = ?t"
      by (simp only: run_append s[symmetric] r)
    then have "fst (camera_inference_main True detect (sched @ Consumer # sched') frames ks) =
          Terminate_called"
      by (simp add: camera_inference_main_def Let_def)
    with a b show "f \<in> set frames \<and>
        run detect (sched @ Consumer # sched') (init frames ks) = ?t \<and>
        fst (camera_inference_main True detect (sched @ Consumer # sched') frames ks) =
          Terminate_called"
      by (intro conjI)
  qed
  have 5: "\<forall>frames ks. f \<in> set frames \<and> True \<notin> set ks \<longrightarrow>
        fst (camera_inference_main True detect (round_robin (9 * length frames + 9))
               frames ks) = Terminate_called"
  proof (intro allI impI)
    fix frames :: "'a list" and ks
    assume h: "f \<in> set frames \<and> True \<notin> set ks"
    from failing_frame_terminates[where detect = detect and g = f and e = e,
        OF h[THEN conjunct2] h[THEN conjunct1] assms(3)]
    show "fst (camera_inference_main True detect (round_robin (9 * length frames + 9))
               frames ks) = Terminate_called"
      by (simp add: camera_inference_main_def Let_def)
  qed
  have 6: "\<forall>frames ks sched. terminate_called (run detect sched (init frames ks)) \<longrightarrow>
        (\<exists>g e'. g \<in> set frames \<and> detect g = Inl e') \<and>
        fst (camera_inference_main True detect sched frames ks) = Terminate_called"
  proof (intro allI impI)
    fix frames ks sched
    assume t: "terminate_called (run detect sched (init frames ks))"
    from run_terminate_reason[OF init_fifo init_not_terminated t]
    have "\<exists>g e'. g \<in> set frames \<and> detect g = Inl e'" .
    moreover from t
    have "fst (camera_inference_main True detect sched frames ks) = Terminate_called"
      by (simp add: camera_inference_main_def Let_def)
    ultimately show "(\<exists>g e'. g \<in> set frames \<and> detect g = Inl e') \<and>
        fst (camera_inference_main True detect sched frames ks) = Terminate_called"
      by blast
  qed
  show ?thesis by (intro conjI) (fact 1 2 3 4 5 6)+
qed

text \<open>
  Claim C2 as amended, on the frames 3 and 4 with a detector that throws on 3: the
  consumer has dequeued frame 3; its next step terminates the process, twenty rounds later
  the history still holds the two entries it held before the call, and \<^verbatim>\<open>main\<close> does not
  return, under this schedule and under the round-robin schedule.
\<close>

theorem detect_error_terminates_process_witness:
  "consumer (run detect_fails_on_3 [Producer, Producer, Consumer, Consumer] (init [3, 4] [])) =
     C_Detect 3 \<and>
   \<not> terminate_called
     (run detect_fails_on_3 [Producer, Producer, Consumer, Consumer] (init [3, 4] [])) \<and>
   detect_fails_on_3 3 = Inl () \<and>
   step detect_fails_on_3 Consumer
       (run detect_fails_on_3 [Producer, Producer, Consumer, Consumer] (init [3, 4] [])) =
     Some ((run detect_fails_on_3 [Producer, Producer, Consumer, Consumer] (init [3, 4] []))
             \<lparr>terminate_called := True\<rparr>) \<and>
   history (run detect_fails_on_3 [Producer, Producer, Consumer, Consumer] (init [3, 4] [])) =
     [EnqA 3 True, DeqA (Some 3)] \<and>
   history (run detect_fails_on_3
       ([Producer, Producer, Consumer, Consumer] @ Consumer # round_robin 20)
       (init [3, 4] [])) =
     [EnqA 3 True, DeqA (Some 3)] \<and>
   fst (camera_inference_main True detect_fails_on_3
          ([Producer, Producer, Consumer, Consumer] @ Consumer # round_robin 20)
          [3, 4] []) = Terminate_called \<and>
   fst (camera_inference_main True detect_fails_on_3 (round_robin (9 * length [3, 4 :: nat] + 9))
          [3, 4] []) = Terminate_called"
proof -
  let ?s = "run detect_fails_on_3 [Producer, Producer, Consumer, Consumer] (init [3, 4] [])"
  have a: "consumer ?s = C_Detect 3" by code_simp
  have b: "\<not> terminate_called ?s" by code_simp
  have c: "detect_fails_on_3 3 = Inl ()" by code_simp
  have h: "history ?s = [EnqA 3 True, DeqA (Some 3)]" by code_simp
  note th = detect_error_terminates_process[where detect = detect_fails_on_3
      and f = "3::nat" and e = "()", OF a b c]
  note th1 = th[THEN conjunct1]
  note th4 = th[THEN conjunct2, THEN conjunct2, THEN conjunct2, THEN conjunct1, rule_format,
      OF refl, of "round_robin 20"]
  note th5 = th[THEN conjunct2, THEN conjunct2, THEN conjunct2, THEN conjunct2, THEN conjunct1,
      rule_format, of "[3, 4]" "[]"]
  from th4[THEN conjunct2, THEN conjunct1] h
  have r: "history (run detect_fails_on_3
       ([Producer, Producer, Consumer, Consumer] @ Consumer # round_robin 20)
       (init [3, 4] [])) = [EnqA 3 True, DeqA (Some 3)]"
    by simp
  from th4[THEN conjunct2, THEN conjunct2]
  have m: "fst (camera_inference_main True detect_fails_on_3
          ([Producer, Producer, Consumer, Consumer] @ Consumer # round_robin 20)
          [3, 4] []) = Terminate_called" .
  have "(3::nat) \<in> set [3, 4] \<and> True \<notin> set []" by simp
  from th5[OF this]
  have n: "fst (camera_inference_main True detect_fails_on_3
      (round_robin (9 * length [3, 4 :: nat] + 9)) [3, 4] []) = Terminate_called" .
  from a b c th1 h r m n show ?thesis by (intro conjI)
qed

text \<open>
  Claim C2 as stated fails: five frames, \<^verbatim>\<open>detect\<close> throws on the third. After twelve
  rounds the process has been terminated; frames 1 and 2 were displayed, and fifty more
  rounds change nothing: frames 4 and 5 are never displayed and \<^verbatim>\<open>main\<close> does not return.
\<close>

theorem detect_error_counterexample:
  "terminate_called (run detect_fails_on_3 (round_robin 12) (init [1, 2, 3, 4, 5] [])) \<and>
   displayed (history (run detect_fails_on_3 (round_robin 12) (init [1, 2, 3, 4, 5] []))) =
     [(1, 10), (2, 20)] \<and>
   run detect_fails_on_3 (round_robin 12 @ round_robin 50) (init [1, 2, 3, 4, 5] []) =
     run detect_fails_on_3 (round_robin 12) (init [1, 2, 3, 4, 5] []) \<and>
   fst (camera_inference_main True detect_fails_on_3 (round_robin 12 @ round_robin 50)
          [1, 2, 3, 4, 5] []) = Terminate_called"
proof -
  let ?s = "run detect_fails_on_3 (round_robin 12) (init [1, 2, 3, 4, 5] [])"
  have t: "terminate_called ?s" by code_simp
  have d: "displayed (history ?s) = [(1, 10), (2, 20)]" by code_simp
  have r: "run detect_fails_on_3 (round_robin 12 @ round_robin 50) (init [1, 2, 3, 4, 5] []) = ?s"
    by (simp only: run_append terminate_called_run[OF t])
  from t r have "fst (camera_inference_main True detect_fails_on_3
      (round_robin 12 @ round_robin 50) [1, 2, 3, 4, 5] []) = Terminate_called"
    by (simp add: camera_inference_main_def Let_def)
  with t d r show ?thesis by blast
qed

subsection \<open>Delivery of the frames\<close>




text \<open>
  Claim C7. On one queue: in a history of calls in which no put is rejected, the items
  put are the items received, in order, followed by the items still buffered; and once a
  get has returned closed, the items received are exactly the items put. In the pipeline,
  in every run and at every moment: each queue has handed to its consumer a prefix of what
  it accepted, the rest is still buffered; the frames displayed are a prefix of the frames
  \<^verbatim>\<open>frameQueue\<close> accepted, which are a prefix of the frames of the camera. Without
  shutdown, that is when the three threads have returned and \<^verbatim>\<open>stopFlag\<close> was never set:
  the consumer has received exactly the \<open>N\<close> frames of the camera in their order, and
  so has the display loop, which displayed all of them. When \<^verbatim>\<open>'q'\<close> is never pressed
  and \<^verbatim>\<open>detect\<close> throws on no frame, the round-robin schedule of \<open>9 * N + 9\<close> rounds
  reaches such a state.
\<close>

theorem order_preserved_no_loss:
  assumes "s = run detect sched (init frames ks)"
  shows
    "(\<forall>cs rs q'. qcalls cs (new_queue K) = Some (rs, q') \<and> NotAccepted \<notin> set rs \<longrightarrow>
        put_items cs = received_items rs @ buf q' \<and>
        (Closed \<in> set rs \<longrightarrow> received_items rs = put_items cs)) \<and>
     accepted_A (history s) = received_A (history s) @ buf (frameQueue s) \<and>
     accepted_B (history s) = received_B (history s) @ buf (processedQueue s) \<and>
     prefix (map fst (displayed (history s))) (accepted_A (history s)) \<and>
     prefix (accepted_A (history s)) frames \<and>
     (all_joined s \<and> \<not> stopFlag s \<longrightarrow>
        received_A (history s) = frames \<and>
        map fst (received_B (history s)) = frames \<and>
        map fst (displayed (history s)) = frames \<and>
        length (displayed (history s)) = length frames) \<and>
     (True \<notin> set ks \<and> (\<forall>f \<in> set frames. \<exists>d. detect f = Inr d) \<longrightarrow>
        \<not> stopFlag (run detect (round_robin (9 * length frames + 9)) (init frames ks)) \<and>
        all_joined (run detect (round_robin (9 * length frames + 9)) (init frames ks)))"
proof -
  have fifo: "fifo_consistent frames detect s"
    unfolding assms by (rule run_fifo[OF init_fifo])
  have und: "undisturbed frames s"
    unfolding assms
    by (rule run_undisturbed[OF init_fifo init_shutdown_consistent init_undisturbed])
  have tid: "terminated_in_detect s"
    unfolding assms by (rule run_terminated_in_detect[OF init_terminated_in_detect])
  have 1: "\<forall>cs rs q'. qcalls cs (new_queue K) = Some (rs, q') \<and> NotAccepted \<notin> set rs \<longrightarrow>
        put_items cs = received_items rs @ buf q' \<and>
        (Closed \<in> set rs \<longrightarrow> received_items rs = put_items cs)"
  proof (intro allI impI, elim conjE)
    fix cs rs and q' :: "'e bqueue"
    assume r: "qcalls cs (new_queue K) = Some (rs, q')" and n: "NotAccepted \<notin> set rs"
    from qcalls_fifo[OF r n] have e: "put_items cs = received_items rs @ buf q'"
      by (simp add: new_queue_def)
    moreover have "received_items rs = put_items cs" if "Closed \<in> set rs"
      using closed_drained[OF r that] e by simp
    ultimately show "put_items cs = received_items rs @ buf q' \<and>
        (Closed \<in> set rs \<longrightarrow> received_items rs = put_items cs)"
      by blast
  qed
  from fifo have 2: "accepted_A (history s) = received_A (history s) @ buf (frameQueue s)"
    and 3: "accepted_B (history s) = received_B (history s) @ buf (processedQueue s)"
    unfolding fifo_consistent_def by blast+
  have 4: "prefix (map fst (displayed (history s))) (accepted_A (history s))"
    by (rule displayed_prefix[OF fifo])
  from fifo have alt:
    "if producer s = P_Finish \<or> producer s = P_Done
     then prefix (accepted_A (history s)) frames
     else frames = accepted_A (history s) @ hand_P s @ cap s"
    unfolding fifo_consistent_def by blast
  have 5: "prefix (accepted_A (history s)) frames"
  proof (cases "producer s = P_Finish \<or> producer s = P_Done")
    case True
    with alt show ?thesis by simp
  next
    case False
    with alt have "frames = accepted_A (history s) @ hand_P s @ cap s" by simp
    then show ?thesis by (metis prefixI)
  qed
  have 6: "all_joined s \<and> \<not> stopFlag s \<longrightarrow>
        received_A (history s) = frames \<and>
        map fst (received_B (history s)) = frames \<and>
        map fst (displayed (history s)) = frames \<and>
        length (displayed (history s)) = length frames"
  proof (intro impI, elim conjE)
    assume j: "all_joined s" and ns: "\<not> stopFlag s"
    have nt: "\<not> terminate_called s" by (rule joined_not_terminated[OF tid j])
    note d = joined_all_delivered[OF fifo und j ns nt]
    from d(3,5) have "length (displayed (history s)) = length frames"
      by (metis length_map)
    with d show "received_A (history s) = frames \<and>
        map fst (received_B (history s)) = frames \<and>
        map fst (displayed (history s)) = frames \<and>
        length (displayed (history s)) = length frames"
      by simp
  qed
  have 7: "True \<notin> set ks \<and> (\<forall>f \<in> set frames. \<exists>d. detect f = Inr d) \<longrightarrow>
        \<not> stopFlag (run detect (round_robin (9 * length frames + 9)) (init frames ks)) \<and>
        all_joined (run detect (round_robin (9 * length frames + 9)) (init frames ks))"
  proof (intro impI, elim conjE)
    assume k: "True \<notin> set ks" and d: "\<forall>f \<in> set frames. \<exists>d. detect f = Inr d"
    note r = undisturbed_round_robin_joined[OF k d]
    show "\<not> stopFlag (run detect (round_robin (9 * length frames + 9)) (init frames ks)) \<and>
        all_joined (run detect (round_robin (9 * length frames + 9)) (init frames ks))"
      by (intro conjI r)
  qed
  show ?thesis by (intro conjI) (fact 1 2 3 4 5 6 7)+
qed

text \<open>
  Claim C7 on three frames, and on a queue of capacity 2 with three puts and a
  \<open>MarkFinished\<close>.
\<close>

theorem order_preserved_no_loss_witness:
  "all_joined (run detect_all (round_robin 15) (init [1, 2, 3] [False])) \<and>
   \<not> stopFlag (run detect_all (round_robin 15) (init [1, 2, 3] [False])) \<and>
   received_A (history (run detect_all (round_robin 15) (init [1, 2, 3] [False]))) =
     [1, 2, 3] \<and>
   map fst (displayed (history (run detect_all (round_robin 15) (init [1, 2, 3] [False])))) =
     [1, 2, 3] \<and>
   displayed (history (run detect_all (round_robin 15) (init [1, 2, 3] [False]))) =
     [(1, 10), (2, 20), (3, 30)] \<and>
   qcalls [Put 1, Put 2, Get, Put 3, MarkFinished, Get, Get, Get :: nat qop] (new_queue 2) =
     Some ([Accepted, Accepted, Item 1, Accepted, Marked, Item 2, Item 3, Closed],
           \<lparr>buf = [], max_size = 2, finished = True\<rparr>) \<and>
   received_items [Accepted, Accepted, Item 1, Accepted, Marked, Item 2, Item 3, Closed] =
     [1, 2, 3 :: nat] \<and>
   True \<notin> set [False] \<and>
   detect_all 1 = Inr 10 \<and> detect_all 2 = Inr 20 \<and> detect_all 3 = Inr 30 \<and>
   all_joined (run detect_all (round_robin (9 * length [1, 2, 3 :: nat] + 9))
     (init [1, 2, 3] [False]))"
proof -
  let ?s = "run detect_all (round_robin 15) (init [1, 2, 3] [False])"
  let ?cs = "[Put 1, Put 2, Get, Put 3, MarkFinished, Get, Get, Get :: nat qop]"
  let ?rs = "[Accepted, Accepted, Item 1, Accepted, Marked, Item 2, Item 3, Closed :: nat qres]"
  have k: "True \<notin> set [False]" by simp
  have d1: "detect_all 1 = Inr 10" and d2: "detect_all 2 = Inr 20"
    and d3: "detect_all 3 = Inr 30"
    by (simp_all add: detect_all_def)
  then have d: "\<forall>f \<in> set [1, 2, 3]. \<exists>d. detect_all f = Inr d" by simp
  have j: "all_joined ?s" by code_simp
  have n: "\<not> stopFlag ?s" by code_simp
  have v: "displayed (history ?s) = [(1, 10), (2, 20), (3, 30)]" by code_simp
  have q: "qcalls ?cs (new_queue 2) = Some (?rs, \<lparr>buf = [], max_size = 2, finished = True\<rparr>)"
    by code_simp
  have na: "NotAccepted \<notin> set ?rs" and c: "Closed \<in> set ?rs" by simp_all
  note th = order_preserved_no_loss[OF refl, of 2 detect_all "round_robin 15" "[1, 2, 3]"
      "[False]"]
  note th6 = th[THEN conjunct2, THEN conjunct2, THEN conjunct2, THEN conjunct2,
      THEN conjunct2, THEN conjunct1, THEN mp, OF conjI[OF j n]]
  from th6 have a: "received_A (history ?s) = [1, 2, 3]" by (elim conjE)
  from th6 have b: "map fst (displayed (history ?s)) = [1, 2, 3]" by (elim conjE)
  from th[THEN conjunct1, rule_format, OF conjI[OF q na], THEN conjunct2, rule_format, OF c]
  have ri: "received_items ?rs = [1, 2, 3]" by simp
  note th7 = th[THEN conjunct2, THEN conjunct2, THEN conjunct2, THEN conjunct2,
      THEN conjunct2, THEN conjunct2, THEN mp, OF conjI[OF k d]]
  from th7 have r: "all_joined (run detect_all (round_robin (9 * length [1, 2, 3 :: nat] + 9))
     (init [1, 2, 3] [False]))"
    by (elim conjE)
  from j n a b v q ri k d1 d2 d3 r show ?thesis by (intro conjI)
qed

subsection \<open>The camera cannot be opened\<close>

text \<open>
  Claim C8. When \<^verbatim>\<open>cap.isOpened()\<close> is false, \<^verbatim>\<open>main\<close> writes the error message to
  \<^verbatim>\<open>std::cerr\<close> and returns \<open>-1\<close>; the queues and the threads are never created.
\<close>

theorem camera_not_opened:
  "camera_inference_main False detect sched frames ks =
     (Exit (- 1), [''Error: Could not open the camera!''], None)"
  by (simp add: camera_inference_main_def)

text \<open>
  Claim C8 on an example, next to a run with an opened camera that returns 0.
\<close>

theorem camera_not_opened_witness:
  "camera_inference_main False detect_all (round_robin 11) [1, 2] [] =
     (Exit (- 1), [''Error: Could not open the camera!''], None) \<and>
   fst (camera_inference_main True detect_all (round_robin 11) [1, 2] []) = Exit 0"
proof -
  have "all_joined (run detect_all (round_robin 11) (init [1, 2] []))" by code_simp
  moreover have "\<not> terminate_called (run detect_all (round_robin 11) (init [1, 2] []))"
    by code_simp
  ultimately have "fst (camera_inference_main True detect_all (round_robin 11) [1, 2] []) = Exit 0"
    by (simp add: camera_inference_main_def Let_def)
  with camera_not_opened[of detect_all "round_robin 11" "[1, 2]" "[]"] show ?thesis by blast
qed

section \<open>Properties of the benchmark tool\<close>

subsection \<open>Statistics of zero frames\<close>

lemma video_loop_no_frame:
  "reads = [] \<or> \<not> is_frame (hd reads) \<Longrightarrow> video_loop reads v = v"
proof (cases reads)
  case Nil
  then show ?thesis by simp
next
  case (Cons r rs)
  assume "reads = [] \<or> \<not> is_frame (hd reads)"
  with Cons show ?thesis by (cases r) (simp_all add: is_frame_def)
qed

lemma camera_loop_no_frame:
  "\<forall>r \<in> set reads. \<not> is_frame r \<Longrightarrow> camera_loop reads v = v"
  by (induction reads v rule: camera_loop.induct) (simp_all add: is_frame_def)

lemma statistics_no_samples: "undefined_statistics (statistics no_samples total_time)"
  by (simp add: undefined_statistics_def statistics_def no_samples_def calc_avg_def
        calc_min_max_def)

lemma video_loop_grows:
  "length (latency_times v) \<le> length (latency_times (video_loop reads v)) \<and>
   length (frame_times v) \<le> length (frame_times (video_loop reads v))"
  by (induction reads v rule: video_loop.induct) (simp_all add: record_sample_def)

text \<open>
  Claim C9. Let the model be supported and the capture opened. When the video yields no
  frame (the first read fails or returns an empty frame), and when the camera yields no
  frame before the deadline, the benchmark function throws nothing and returns metrics
  with \<open>frame_count = 0\<close> in which every average is the result of a division by zero
  and the minimum and maximum latency are the results of dereferencing the end iterator.
  When the video yields at least one frame, the average and the extremes are defined.
\<close>

theorem zero_frames_statistics_undefined:
  assumes "createDetector config = Inr ()"
  shows
    "(reads = [] \<or> \<not> is_frame (hd reads) \<longrightarrow>
        (\<exists>m. benchmark_video_comprehensive config video_path True reads total_time = Inr m \<and>
             undefined_statistics m)) \<and>
     ((\<forall>r \<in> set ticks. \<not> is_frame r) \<longrightarrow>
        (\<exists>m. benchmark_camera_comprehensive config camera_id True ticks total_time = Inr m \<and>
             undefined_statistics m)) \<and>
     (reads \<noteq> [] \<and> is_frame (hd reads) \<longrightarrow>
        (\<exists>m a lo hi. benchmark_video_comprehensive config video_path True reads total_time =
             Inr m \<and>
           total_avg_ms m = Inr a \<and> latency_min_ms m = Inr lo \<and> latency_max_ms m = Inr hi))"
proof -
  have 1: "reads = [] \<or> \<not> is_frame (hd reads) \<longrightarrow>
        (\<exists>m. benchmark_video_comprehensive config video_path True reads total_time = Inr m \<and>
             undefined_statistics m)"
    using assms video_loop_no_frame[of reads no_samples] statistics_no_samples[of total_time]
    by (auto simp: benchmark_video_comprehensive_def)
  have 2: "(\<forall>r \<in> set ticks. \<not> is_frame r) \<longrightarrow>
        (\<exists>m. benchmark_camera_comprehensive config camera_id True ticks total_time = Inr m \<and>
             undefined_statistics m)"
    using assms camera_loop_no_frame[of ticks no_samples] statistics_no_samples[of total_time]
    by (auto simp: benchmark_camera_comprehensive_def)
  have 3: "reads \<noteq> [] \<and> is_frame (hd reads) \<longrightarrow>
        (\<exists>m a lo hi. benchmark_video_comprehensive config video_path True reads total_time =
             Inr m \<and>
           total_avg_ms m = Inr a \<and> latency_min_ms m = Inr lo \<and> latency_max_ms m = Inr hi)"
  proof
    assume "reads \<noteq> [] \<and> is_frame (hd reads)"
    then obtain m rs where r: "reads = Frame m # rs"
      by (cases reads; cases "hd reads") (auto simp: is_frame_def)
    let ?v = "video_loop reads no_samples"
    from video_loop_grows[of "record_sample m no_samples" rs] r
    have "latency_times ?v \<noteq> []" and "frame_times ?v \<noteq> []"
      by (auto simp: record_sample_def)
    then show "\<exists>m a lo hi. benchmark_video_comprehensive config video_path True reads total_time =
             Inr m \<and>
           total_avg_ms m = Inr a \<and> latency_min_ms m = Inr lo \<and> latency_max_ms m = Inr hi"
      using assms
      by (auto simp: benchmark_video_comprehensive_def statistics_def calc_avg_def
            calc_min_max_def Let_def split: list.splits)
  qed
  show ?thesis by (intro conjI) (fact 1 2 3)+
qed

text \<open>
  Claim C9 on an empty video and on a camera whose three reads fail.
\<close>

theorem zero_frames_statistics_undefined_witness:
  "createDetector yolo11_config = Inr () \<and>
   benchmark_video_comprehensive yolo11_config ''data/dogs.mp4'' True [] 12 =
     Inr \<lparr>frame_count = 0, total_avg_ms = Inl Division_by_zero, fps = Inr 0,
          latency_avg_ms = Inl Division_by_zero,
          latency_min_ms = Inl Deref_end_iterator, latency_max_ms = Inl Deref_end_iterator,
          cpu_usage_percent = Inl Division_by_zero,
          gpu_usage_percent = Inl Division_by_zero,
          gpu_memory_used_mb = Inl Division_by_zero\<rparr> \<and>
   undefined_statistics (projr (benchmark_camera_comprehensive yolo11_config 0 True
     [Read_failed, Empty_frame, Read_failed] 30000))"
proof -
  have c: "createDetector yolo11_config = Inr ()"
    by (simp add: createDetector_def yolo11_config_def)
  have v: "benchmark_video_comprehensive yolo11_config ''data/dogs.mp4'' True [] 12 =
     Inr \<lparr>frame_count = 0, total_avg_ms = Inl Division_by_zero, fps = Inr 0,
          latency_avg_ms = Inl Division_by_zero,
          latency_min_ms = Inl Deref_end_iterator, latency_max_ms = Inl Deref_end_iterator,
          cpu_usage_percent = Inl Division_by_zero,
          gpu_usage_percent = Inl Division_by_zero,
          gpu_memory_used_mb = Inl Division_by_zero\<rparr>"
    by (simp add: benchmark_video_comprehensive_def c statistics_def no_samples_def
          calc_avg_def calc_min_max_def)
  have t: "\<forall>r \<in> set [Read_failed, Empty_frame, Read_failed]. \<not> is_frame r"
    by (simp add: is_frame_def)
  note th = zero_frames_statistics_undefined[OF c,
      where reads = "[]" and video_path = "''data/dogs.mp4''" and total_time = 30000
        and ticks = "[Read_failed, Empty_frame, Read_failed]" and camera_id = 0]
  from th[THEN conjunct2, THEN conjunct1, THEN mp, OF t]
  have "undefined_statistics (projr (benchmark_camera_comprehensive yolo11_config 0 True
     [Read_failed, Empty_frame, Read_failed] 30000))"
    by auto
  with c v show ?thesis by (intro conjI)
qed

subsection \<open>The seventh argument\<close>

lemma parse_options_not_invalid:
  "parse_options stoi args config \<noteq> Inl Invalid_arguments"
proof (induction args arbitrary: config)
  case Nil
  show ?case by simp
next
  case (Cons arg args)
  show ?case
    by (cases "stoi (drop 10 arg)") (simp_all add: Cons.IH)
qed

lemma parse_options_accepts:
  "(\<exists>c. parse_options stoi args config = Inr c) \<longleftrightarrow>
   (\<forall>arg \<in> set args. take 10 arg = ''--threads='' \<longrightarrow> (\<exists>n. stoi (drop 10 arg) = Inr n))"
proof (induction args arbitrary: config)
  case Nil
  show ?case by simp
next
  case (Cons arg args)
  show ?case
  proof (cases "take 10 arg = ''--threads=''")
    case True
    then have "arg \<noteq> ''--gpu''" "arg \<noteq> ''gpu''" "arg \<noteq> ''--cpu''" "arg \<noteq> ''cpu''"
      by auto
    with True show ?thesis
      by (cases "stoi (drop 10 arg)") (simp_all add: Cons.IH)
  next
    case False
    then show ?thesis by (simp add: Cons.IH)
  qed
qed

lemma statistics_ops:
  "set (undefined_ops (statistics v total_time)) \<subseteq> {Division_by_zero, Deref_end_iterator}"
  by (auto simp: undefined_ops_def statistics_def calc_avg_def calc_min_max_def Let_def
        split: list.splits if_splits)

lemma benchmark_functions_ops:
  assumes "benchmark_functions isOpened reads total_time call = Inr m"
  shows "String_from_null \<notin> set (undefined_ops m)"
proof -
  from assms obtain v where "m = statistics v total_time"
    by (auto simp: benchmark_functions_def benchmark_video_comprehensive_def
          benchmark_camera_comprehensive_def split: benchmark_call.splits sum.splits if_splits)
  with statistics_ops[of v total_time] show ?thesis by auto
qed

lemma after_benchmark_null:
  assumes "\<forall>call m. benchmark call = Inr m \<longrightarrow> String_from_null \<notin> set (undefined_ops m)"
  shows "after_benchmark (benchmark call) \<noteq> Undefined String_from_null"
proof (cases "benchmark call")
  case (Inl e)
  then show ?thesis by (simp add: after_benchmark_def)
next
  case (Inr m)
  with assms have "String_from_null \<notin> set (undefined_ops m)" by blast
  with Inr show ?thesis by (cases "undefined_ops m") (auto simp: after_benchmark_def)
qed

lemma after_benchmark_defined:
  assumes "\<forall>call m. benchmark call = Inr m \<longrightarrow> undefined_ops m = []"
  shows "never_undefined (after_benchmark (benchmark call))"
proof (cases "benchmark call")
  case (Inl e)
  then show ?thesis by (simp add: after_benchmark_def never_undefined_def)
next
  case (Inr m)
  with assms have "undefined_ops m = []" by blast
  with Inr show ?thesis by (simp add: after_benchmark_def never_undefined_def)
qed

lemma main_seven_arguments:
  assumes "2 \<le> length argv" and "argv ! 1 \<noteq> ''comprehensive''" and "7 \<le> length argv"
  shows "analyzer_main stoi benchmark comprehensive argv = Exit 1 \<or>
     (\<exists>call. analyzer_main stoi benchmark comprehensive argv = after_benchmark (benchmark call))"
proof -
  from assms(3) have "argv_at argv 6 = Some (argv ! 6)" by (simp add: argv_at_def)
  with assms show ?thesis
    by (auto simp: analyzer_main_def split: sum.splits prod.splits)
qed

lemma main_video:
  assumes "length argv = 7" and "argv ! 1 = ''video''" and "parseConfig stoi argv = Inr config"
  shows "analyzer_main stoi benchmark comprehensive argv =
     after_benchmark (benchmark (Video_benchmark config (argv ! 6)))"
  using assms by (simp add: analyzer_main_def argv_at_def)

lemma main_rejected:
  assumes "2 \<le> length argv" and "argv ! 1 \<noteq> ''comprehensive''"
    and "parseConfig stoi argv = Inl e"
  shows "analyzer_main stoi benchmark comprehensive argv = Exit 1"
  using assms by (simp add: analyzer_main_def)

text \<open>
  Claim C10, as the code has it. In the single-benchmark modes (\<open>argc \<ge> 2\<close> and a mode
  other than \<^verbatim>\<open>comprehensive\<close>): \<^verbatim>\<open>parseConfig\<close> throws \<^verbatim>\<open>"Invalid arguments"\<close>
  exactly when \<open>argc < 6\<close>, and it returns a configuration exactly when \<open>argc \<ge> 6\<close>
  and \<^verbatim>\<open>std::stoi\<close> converts the number of every \<^verbatim>\<open>--threads=\<close> option among
  \<^verbatim>\<open>argv[7]\<close> and the arguments after it; so it accepts every command line with
  \<open>argc = 6\<close> or \<open>argc = 7\<close>. For \<open>argc = 6\<close>, \<^verbatim>\<open>argv[6]\<close> is the null pointer and
  \<^verbatim>\<open>main\<close> constructs a \<^verbatim>\<open>std::string\<close> from it; for \<open>argc \<ge> 7\<close> it is an argument
  string. \<^verbatim>\<open>main\<close> performs this undefined construction exactly when \<open>argc = 6\<close>,
  whatever the benchmark functions do (as long as they construct no string from a null
  pointer themselves, which the benchmark functions of the file do not). Hence, for a
  command line that \<^verbatim>\<open>parseConfig\<close> accepts, defined behaviour requires \<open>argc \<ge> 7\<close>;
  and when the benchmark functions execute no undefined operation, the behaviour of
  \<^verbatim>\<open>main\<close> is defined exactly when \<open>argc \<noteq> 6\<close>. The condition \<open>argc \<ge> 7\<close> is not
  sufficient: with seven arguments, the video mode, a supported model and a video that
  yields no frame, the first operation of the statistics block divides by zero.
\<close>

theorem argv6_read_needs_seven_arguments:
  assumes "2 \<le> length argv" and "argv ! 1 \<noteq> ''comprehensive''"
  shows
    "(parseConfig stoi argv = Inl Invalid_arguments \<longleftrightarrow> length argv < 6) \<and>
     ((\<exists>config. parseConfig stoi argv = Inr config) \<longleftrightarrow>
        6 \<le> length argv \<and>
        (\<forall>arg \<in> set (drop 7 argv).
           take 10 arg = ''--threads='' \<longrightarrow> (\<exists>n. stoi (drop 10 arg) = Inr n))) \<and>
     (length argv = 6 \<or> length argv = 7 \<longrightarrow>
        parseConfig stoi argv =
          Inr \<lparr>model_type = argv ! 2, task_type = argv ! 3, model_path = argv ! 4,
               labels_path = argv ! 5, use_gpu = False, thread_count = 1,
               quantized = False, precision = ''fp32''\<rparr>) \<and>
     (length argv = 6 \<longrightarrow>
        argv_at argv 6 = None \<and>
        analyzer_main stoi benchmark comprehensive argv = Undefined String_from_null) \<and>
     (7 \<le> length argv \<longrightarrow> argv_at argv 6 = Some (argv ! 6)) \<and>
     ((\<forall>call m. benchmark call = Inr m \<longrightarrow> String_from_null \<notin> set (undefined_ops m)) \<longrightarrow>
        (analyzer_main stoi benchmark comprehensive argv = Undefined String_from_null \<longleftrightarrow>
         length argv = 6)) \<and>
     (analyzer_main stoi (benchmark_functions isOpened reads total_time) comprehensive argv =
        Undefined String_from_null \<longleftrightarrow> length argv = 6) \<and>
     ((\<exists>config. parseConfig stoi argv = Inr config) \<and>
      never_undefined (analyzer_main stoi benchmark comprehensive argv) \<longrightarrow>
        7 \<le> length argv) \<and>
     ((\<forall>call m. benchmark call = Inr m \<longrightarrow> undefined_ops m = []) \<longrightarrow>
        (never_undefined (analyzer_main stoi benchmark comprehensive argv) \<longleftrightarrow>
         length argv \<noteq> 6)) \<and>
     (\<forall>config. length argv = 7 \<and> argv ! 1 = ''video'' \<and>
        parseConfig stoi argv = Inr config \<and> createDetector config = Inr () \<and>
        (reads = [] \<or> \<not> is_frame (hd reads)) \<longrightarrow>
        analyzer_main stoi (benchmark_functions True reads total_time) comprehensive argv =
          Undefined Division_by_zero)"
proof -
  have 1: "parseConfig stoi argv = Inl Invalid_arguments \<longleftrightarrow> length argv < 6"
    by (simp add: parseConfig_def parse_options_not_invalid)
  have 2: "(\<exists>config. parseConfig stoi argv = Inr config) \<longleftrightarrow>
        6 \<le> length argv \<and>
        (\<forall>arg \<in> set (drop 7 argv).
           take 10 arg = ''--threads='' \<longrightarrow> (\<exists>n. stoi (drop 10 arg) = Inr n))"
  proof (cases "length argv < 6")
    case True
    then show ?thesis by (simp add: parseConfig_def)
  next
    case False
    then show ?thesis by (simp add: parseConfig_def parse_options_accepts)
  qed
  have 3: "length argv = 6 \<or> length argv = 7 \<longrightarrow>
        parseConfig stoi argv =
          Inr \<lparr>model_type = argv ! 2, task_type = argv ! 3, model_path = argv ! 4,
               labels_path = argv ! 5, use_gpu = False, thread_count = 1,
               quantized = False, precision = ''fp32''\<rparr>"
    by (auto simp: parseConfig_def)
  have six: "analyzer_main stoi b comprehensive argv = Undefined String_from_null"
    if "length argv = 6" for b
    using that assms by (simp add: parseConfig_def argv_at_def analyzer_main_def)
  have few: "analyzer_main stoi b comprehensive argv = Exit 1"
    if "length argv < 6" for b
    using that assms by (simp add: parseConfig_def analyzer_main_def)
  have 4: "length argv = 6 \<longrightarrow>
        argv_at argv 6 = None \<and>
        analyzer_main stoi benchmark comprehensive argv = Undefined String_from_null"
    using six[of benchmark] by (simp add: argv_at_def)
  have 5: "7 \<le> length argv \<longrightarrow> argv_at argv 6 = Some (argv ! 6)"
    by (simp add: argv_at_def)
  have null: "analyzer_main stoi b comprehensive argv = Undefined String_from_null \<longleftrightarrow>
         length argv = 6"
    if h: "\<forall>call m. b call = Inr m \<longrightarrow> String_from_null \<notin> set (undefined_ops m)" for b
  proof (cases "length argv = 6")
    case True
    with six[of b] show ?thesis by simp
  next
    case False
    show ?thesis
    proof (cases "length argv < 6")
      case True
      with few[of b] False show ?thesis by simp
    next
      case ge: False
      with False have "7 \<le> length argv" by simp
      from main_seven_arguments[OF assms this, of stoi b comprehensive]
        after_benchmark_null[OF h] False
      show ?thesis by auto
    qed
  qed
  have 6: "(\<forall>call m. benchmark call = Inr m \<longrightarrow> String_from_null \<notin> set (undefined_ops m)) \<longrightarrow>
        (analyzer_main stoi benchmark comprehensive argv = Undefined String_from_null \<longleftrightarrow>
         length argv = 6)"
    using null[of benchmark] by blast
  have 7: "analyzer_main stoi (benchmark_functions isOpened reads total_time) comprehensive argv =
        Undefined String_from_null \<longleftrightarrow> length argv = 6"
    by (rule null) (simp add: benchmark_functions_ops)
  have 8: "(\<exists>config. parseConfig stoi argv = Inr config) \<and>
      never_undefined (analyzer_main stoi benchmark comprehensive argv) \<longrightarrow>
        7 \<le> length argv"
  proof
    assume h: "(\<exists>config. parseConfig stoi argv = Inr config) \<and>
      never_undefined (analyzer_main stoi benchmark comprehensive argv)"
    with 2 have "6 \<le> length argv" by blast
    moreover from h six[of benchmark] have "length argv \<noteq> 6"
      by (auto simp: never_undefined_def)
    ultimately show "7 \<le> length argv" by simp
  qed
  have 9: "(\<forall>call m. benchmark call = Inr m \<longrightarrow> undefined_ops m = []) \<longrightarrow>
        (never_undefined (analyzer_main stoi benchmark comprehensive argv) \<longleftrightarrow>
         length argv \<noteq> 6)"
  proof
    assume h: "\<forall>call m. benchmark call = Inr m \<longrightarrow> undefined_ops m = []"
    show "never_undefined (analyzer_main stoi benchmark comprehensive argv) \<longleftrightarrow>
         length argv \<noteq> 6"
    proof (cases "length argv = 6")
      case True
      with six[of benchmark] show ?thesis by (simp add: never_undefined_def)
    next
      case False
      show ?thesis
      proof (cases "length argv < 6")
        case True
        with few[of benchmark] False show ?thesis by (simp add: never_undefined_def)
      next
        case ge: False
        with False have "7 \<le> length argv" by simp
        from main_seven_arguments[OF assms this, of stoi benchmark comprehensive]
          after_benchmark_defined[OF h] False
        show ?thesis by (auto simp: never_undefined_def)
      qed
    qed
  qed
  have 10: "\<forall>config. length argv = 7 \<and> argv ! 1 = ''video'' \<and>
        parseConfig stoi argv = Inr config \<and> createDetector config = Inr () \<and>
        (reads = [] \<or> \<not> is_frame (hd reads)) \<longrightarrow>
        analyzer_main stoi (benchmark_functions True reads total_time) comprehensive argv =
          Undefined Division_by_zero"
  proof (intro allI impI)
    fix config
    assume h: "length argv = 7 \<and> argv ! 1 = ''video'' \<and>
        parseConfig stoi argv = Inr config \<and> createDetector config = Inr () \<and>
        (reads = [] \<or> \<not> is_frame (hd reads))"
    then have v: "video_loop reads no_samples = no_samples"
      using video_loop_no_frame[of reads no_samples] by blast
    have "total_avg_ms (statistics no_samples total_time) = Inl Division_by_zero"
      by (simp add: statistics_def Let_def no_samples_def calc_avg_def)
    then obtain us where u: "undefined_ops (statistics no_samples total_time) =
        Division_by_zero # us"
      by (simp add: undefined_ops_def)
    have "after_benchmark (benchmark_functions True reads total_time
        (Video_benchmark config (argv ! 6))) = Undefined Division_by_zero"
      using h v u
      by (simp add: after_benchmark_def benchmark_functions_def
            benchmark_video_comprehensive_def)
    with h show "analyzer_main stoi (benchmark_functions True reads total_time) comprehensive
        argv = Undefined Division_by_zero"
      by (simp add: analyzer_main_def argv_at_def)
  qed
  show ?thesis by (intro conjI) (fact 1 2 3 4 5 6 7 8 9 10)+
qed

text \<open>
  Claim C10 as amended, on a command line of six arguments, and on the same with the
  path of a video as seventh argument: a video without a frame, a video that cannot be
  opened, and a video of one frame.
\<close>

theorem argv6_read_needs_seven_arguments_witness:
  "2 \<le> length six_arguments \<and> six_arguments ! 1 \<noteq> ''comprehensive'' \<and>
   length six_arguments = 6 \<and>
   parseConfig stoi_digit six_arguments = Inr yolo11_config \<and>
   analyzer_main stoi_digit (benchmark_functions True [] 12) 0 six_arguments =
     Undefined String_from_null \<and>
   parseConfig stoi_digit (six_arguments @ [''data/dogs.mp4'']) = Inr yolo11_config \<and>
   analyzer_main stoi_digit (benchmark_functions True [] 12) 0
     (six_arguments @ [''data/dogs.mp4'']) = Undefined Division_by_zero \<and>
   analyzer_main stoi_digit (benchmark_functions False [] 12) 0
     (six_arguments @ [''data/dogs.mp4'']) = Exit 1 \<and>
   analyzer_main stoi_digit
     (benchmark_functions True
        [Frame \<lparr>cpu_usage = 50, gpu_util = 0, gpu_memory = 0, frame_time = 20, latency = 21\<rparr>]
        25)
     0 (six_arguments @ [''data/dogs.mp4'']) = Exit 0"
proof -
  let ?seven = "six_arguments @ [''data/dogs.mp4'']"
  have a: "2 \<le> length six_arguments" and b: "six_arguments ! 1 \<noteq> ''comprehensive''"
    and l: "length six_arguments = 6"
    by (simp_all add: six_arguments_def)
  have a7: "2 \<le> length ?seven" and b7: "?seven ! 1 \<noteq> ''comprehensive''"
    by (simp_all add: six_arguments_def)
  have p: "parseConfig stoi_digit six_arguments = Inr yolo11_config"
    by (simp add: parseConfig_def six_arguments_def yolo11_config_def)
  have p7: "parseConfig stoi_digit ?seven = Inr yolo11_config"
    by (simp add: parseConfig_def six_arguments_def yolo11_config_def)
  have c: "createDetector yolo11_config = Inr ()"
    by (simp add: createDetector_def yolo11_config_def)
  note th = argv6_read_needs_seven_arguments[OF a b,
      where stoi = stoi_digit and benchmark = "benchmark_functions True [] 12"
        and comprehensive = 0]
  from th[THEN conjunct2, THEN conjunct2, THEN conjunct2, THEN conjunct1, THEN mp, OF l]
  have u: "analyzer_main stoi_digit (benchmark_functions True [] 12) 0 six_arguments =
      Undefined String_from_null"
    by (elim conjE)
  note th7 = argv6_read_needs_seven_arguments[OF a7 b7,
      where stoi = stoi_digit and reads = "[]" and total_time = 12 and comprehensive = 0]
  have "length ?seven = 7 \<and> ?seven ! 1 = ''video'' \<and>
      parseConfig stoi_digit ?seven = Inr yolo11_config \<and>
      createDetector yolo11_config = Inr () \<and>
      ([] = [] \<or> \<not> is_frame (hd []))"
    using p7 c by (simp add: six_arguments_def)
  from th7[THEN conjunct2, THEN conjunct2, THEN conjunct2, THEN conjunct2, THEN conjunct2,
      THEN conjunct2, THEN conjunct2, THEN conjunct2, THEN conjunct2, rule_format, OF this]
  have d: "analyzer_main stoi_digit (benchmark_functions True [] 12) 0 ?seven =
      Undefined Division_by_zero" .
  have l7: "length ?seven = 7" and n7: "?seven ! 1 = ''video''"
    and g7: "?seven ! 6 = ''data/dogs.mp4''"
    by (simp_all add: six_arguments_def)
  have e: "analyzer_main stoi_digit (benchmark_functions False [] 12) 0 ?seven = Exit 1"
    by (simp only: main_video[OF l7 n7 p7] g7)
       (simp add: after_benchmark_def benchmark_functions_def
          benchmark_video_comprehensive_def c)
  have f: "analyzer_main stoi_digit
     (benchmark_functions True
        [Frame \<lparr>cpu_usage = 50, gpu_util = 0, gpu_memory = 0, frame_time = 20, latency = 21\<rparr>]
        25)
     0 ?seven = Exit 0"
    by (simp only: main_video[OF l7 n7 p7] g7)
       (simp add: after_benchmark_def benchmark_functions_def
          benchmark_video_comprehensive_def c statistics_def no_samples_def
          record_sample_def calc_avg_def calc_min_max_def undefined_ops_def)
  from a b l p u p7 d e f show ?thesis by (intro conjI)
qed

text \<open>
  Claim C10 as stated fails: \<^verbatim>\<open>parseConfig\<close> does not accept every command line with
  \<open>argc \<ge> 6\<close>. With eight arguments of which the last is \<^verbatim>\<open>--threads=abc\<close>,
  \<^verbatim>\<open>std::stoi\<close> throws \<^verbatim>\<open>std::invalid_argument\<close> inside \<^verbatim>\<open>parseConfig\<close>, and \<^verbatim>\<open>main\<close>
  returns 1 from its \<^verbatim>\<open>catch\<close> block.
\<close>

theorem parseConfig_rejects_option_counterexample:
  "length (six_arguments @ [''data/dogs.mp4'', ''--threads=abc'']) = 8 \<and>
   stoi_digit ''abc'' = Inl Invalid_argument \<and>
   parseConfig stoi_digit (six_arguments @ [''data/dogs.mp4'', ''--threads=abc'']) =
     Inl (Stoi_failed Invalid_argument) \<and>
   analyzer_main stoi_digit (benchmark_functions True [] 12) 0
     (six_arguments @ [''data/dogs.mp4'', ''--threads=abc'']) = Exit 1"
proof -
  let ?eight = "six_arguments @ [''data/dogs.mp4'', ''--threads=abc'']"
  have l: "length ?eight = 8" by (simp add: six_arguments_def)
  have s: "stoi_digit ''abc'' = Inl Invalid_argument" by (simp add: stoi_digit_def)
  have p: "parseConfig stoi_digit ?eight = Inl (Stoi_failed Invalid_argument)"
    by (simp add: parseConfig_def six_arguments_def s)
  have "2 \<le> length ?eight" and "?eight ! 1 \<noteq> ''comprehensive''"
    by (simp_all add: six_arguments_def)
  from main_rejected[OF this p]
  have m: "analyzer_main stoi_digit (benchmark_functions True [] 12) 0 ?eight = Exit 1" .
  from l s p m show ?thesis by (intro conjI)
qed

end
